theory Spec2Isabelle
  imports Main "HOL-Library.Char_ord" "HOL-Library.List_Lexorder" "HOL-Library.AList"
begin

section \<open>JavaScript values used by the core\<close>

text \<open>
  A board configuration is a JavaScript array of numbers. Cells are modelled as
  \<^typ>\<open>int\<close> (0 = empty, 1 = X, 2 = O, any other integer is an out-of-domain cell),
  arrays as lists and strings as \<^typ>\<open>string\<close>. Strings are compared with the
  lexicographic order on character codes, which is what \<^verbatim>\<open><\<close> does on
  JavaScript strings.
\<close>

type_synonym config = "int list"

definition digit_char :: "nat \<Rightarrow> char" where
  "digit_char d = ''0123456789'' ! (d mod 10)"

text \<open>\<^verbatim>\<open>n.toString(3)\<close> and \<^verbatim>\<open>String(n)\<close> for a non-negative integer.\<close>

fun toString3 :: "nat \<Rightarrow> string" where
  "toString3 n = (if n < 3 then [digit_char n] else toString3 (n div 3) @ [digit_char (n mod 3)])"

fun toString10 :: "nat \<Rightarrow> string" where
  "toString10 n = (if n < 10 then [digit_char n] else toString10 (n div 10) @ [digit_char (n mod 10)])"

declare toString3.simps [simp del] toString10.simps [simp del]

definition String_of_int :: "int \<Rightarrow> string" where
  "String_of_int i = (if i < 0 then CHR ''-'' # toString10 (nat (- i)) else toString10 (nat i))"

text \<open>\<^verbatim>\<open>config.join('')\<close>\<close>

definition join :: "config \<Rightarrow> string" where
  "join c = concat (map String_of_int c)"

text \<open>\<^verbatim>\<open>s.padStart(n, ch)\<close>\<close>

definition padStart :: "nat \<Rightarrow> char \<Rightarrow> string \<Rightarrow> string" where
  "padStart n ch s = replicate (n - length s) ch @ s"

text \<open>
  \<^verbatim>\<open>Number(ch)\<close> on the one-character strings that \<^verbatim>\<open>id.split('')\<close> yields.
  A decimal digit gives its value. No other character has an integer value in
  JavaScript; such characters never occur in the strings produced by
  \<^verbatim>\<open>toString(3)\<close> and \<^verbatim>\<open>padStart(9, '0')\<close>, and the model maps them to \<open>- 1\<close>.
\<close>

definition Number_char :: "char \<Rightarrow> int" where
  "Number_char ch =
     (if ch = CHR ''0'' then 0 else if ch = CHR ''1'' then 1 else if ch = CHR ''2'' then 2
      else if ch = CHR ''3'' then 3 else if ch = CHR ''4'' then 4 else if ch = CHR ''5'' then 5
      else if ch = CHR ''6'' then 6 else if ch = CHR ''7'' then 7 else if ch = CHR ''8'' then 8
      else if ch = CHR ''9'' then 9 else - 1)"

text \<open>
  \<^verbatim>\<open>parseInt(s, 3)\<close>: an optional sign, then the longest prefix of base-3 digits;
  \<open>None\<close> is \<^verbatim>\<open>NaN\<close> (no digit at all).
\<close>

definition is_digit3 :: "char \<Rightarrow> bool" where
  "is_digit3 ch \<longleftrightarrow> ch = CHR ''0'' \<or> ch = CHR ''1'' \<or> ch = CHR ''2''"

definition digits3_value :: "string \<Rightarrow> int" where
  "digits3_value s = foldl (\<lambda>acc ch. 3 * acc + Number_char ch) 0 s"

definition parseInt3_unsigned :: "string \<Rightarrow> int option" where
  "parseInt3_unsigned s =
     (let ds = takeWhile is_digit3 s in if ds = [] then None else Some (digits3_value ds))"

definition parseInt3 :: "string \<Rightarrow> int option" where
  "parseInt3 s =
     (case s of
        [] \<Rightarrow> None
      | ch # r \<Rightarrow>
          if ch = CHR ''-'' then map_option uminus (parseInt3_unsigned r)
          else if ch = CHR ''+'' then parseInt3_unsigned r
          else parseInt3_unsigned s)"

section \<open>SymmetryUtils\<close>

definition rotate90 :: "config \<Rightarrow> config" where
  "rotate90 c = [c ! 6, c ! 3, c ! 0, c ! 7, c ! 4, c ! 1, c ! 8, c ! 5, c ! 2]"

definition rotate180 :: "config \<Rightarrow> config" where
  "rotate180 c = [c ! 8, c ! 7, c ! 6, c ! 5, c ! 4, c ! 3, c ! 2, c ! 1, c ! 0]"

definition rotate270 :: "config \<Rightarrow> config" where
  "rotate270 c = [c ! 2, c ! 5, c ! 8, c ! 1, c ! 4, c ! 7, c ! 0, c ! 3, c ! 6]"

definition reflectHorizontal :: "config \<Rightarrow> config" where
  "reflectHorizontal c = [c ! 6, c ! 7, c ! 8, c ! 3, c ! 4, c ! 5, c ! 0, c ! 1, c ! 2]"

definition reflectVertical :: "config \<Rightarrow> config" where
  "reflectVertical c = [c ! 2, c ! 1, c ! 0, c ! 5, c ! 4, c ! 3, c ! 8, c ! 7, c ! 6]"

definition reflectDiagonal :: "config \<Rightarrow> config" where
  "reflectDiagonal c = [c ! 0, c ! 3, c ! 6, c ! 1, c ! 4, c ! 7, c ! 2, c ! 5, c ! 8]"

definition reflectAntiDiagonal :: "config \<Rightarrow> config" where
  "reflectAntiDiagonal c = [c ! 8, c ! 5, c ! 2, c ! 7, c ! 4, c ! 1, c ! 6, c ! 3, c ! 0]"

definition getAllSymmetries :: "config \<Rightarrow> config list" where
  "getAllSymmetries c =
     [c, rotate90 c, rotate180 c, rotate270 c,
      reflectHorizontal c, reflectVertical c, reflectDiagonal c, reflectAntiDiagonal c]"

text \<open>
  \<^verbatim>\<open>stringSymmetries.reduce((min, current) => current < min ? current : min, stringSymmetries[0])\<close>
\<close>

definition getCanonicalForm :: "config \<Rightarrow> string" where
  "getCanonicalForm c =
     (let symmetries = getAllSymmetries c;
          stringSymmetries = map join symmetries
      in foldl (\<lambda>mn current. if current < mn then current else mn)
           (stringSymmetries ! 0) stringSymmetries)"

definition areEquivalent :: "config \<Rightarrow> config \<Rightarrow> bool" where
  "areEquivalent c1 c2 \<longleftrightarrow> getCanonicalForm c1 = getCanonicalForm c2"

text \<open>The eight transforms, as the list of functions that \<open>getAllSymmetries\<close> applies.\<close>

definition symmetry_transforms :: "(config \<Rightarrow> config) list" where
  "symmetry_transforms =
     [\<lambda>c. c, rotate90, rotate180, rotate270,
      reflectHorizontal, reflectVertical, reflectDiagonal, reflectAntiDiagonal]"

section \<open>TicTacToeState\<close>

text \<open>
  \<open>nextPlayer\<close> and \<open>nextPlayerFirstPlayerX\<close> hold \<^verbatim>\<open>null\<close>, \<^verbatim>\<open>undefined\<close> or a
  player number.
\<close>

datatype next_player = Null | Undefined | Player int

datatype error =
    ConfigError       \<comment> \<open>Config must be an array of 9 numbers\<close>
  | MoveStateError    \<comment> \<open>Cannot make move on invalid or terminal state\<close>
  | OccupiedError     \<comment> \<open>Position already occupied\<close>
  | NodeTypeError     \<comment> \<open>TypeError: a property of an undefined graph node is read\<close>

record winnerInfo =
  wi_winners :: "int list"
  wi_hasWinner :: bool
  wi_lines :: "nat list list"

record TicTacToeState =
  config :: config
  id_field :: string
  decimalId :: "int option"
  count0 :: nat
  count1 :: nat
  count2 :: nat
  turnCount :: nat
  winners :: "int list"
  hasWinner :: bool
  winningLines :: "nat list list"
  hasUniqueWinner :: bool
  isValid :: bool
  isValidFirstPlayerX :: bool
  nextPlayer :: next_player
  nextPlayerFirstPlayerX :: next_player
  isTerminal :: bool
  isValidOneWinner :: bool
  isValidWinningPosition :: bool
  canonical :: string

definition winningLines_table :: "(nat \<times> nat \<times> nat) list" where
  "winningLines_table =
     [(0, 1, 2), (3, 4, 5), (6, 7, 8),
      (0, 3, 6), (1, 4, 7), (2, 5, 8),
      (0, 4, 8), (2, 4, 6)]"

text \<open>
  One iteration of the loop of \<open>_calculateWinners\<close>: \<open>ws\<close> is the insertion-ordered
  \<^verbatim>\<open>Set\<close> of winners, \<open>ls\<close> the array of winning lines.
\<close>

definition winners_step :: "config \<Rightarrow> nat list list \<times> int list \<Rightarrow> nat \<times> nat \<times> nat \<Rightarrow> nat list list \<times> int list" where
  "winners_step c acc line =
     (case (acc, line) of ((ls, ws), (a, b, d)) \<Rightarrow>
        if c ! a \<noteq> 0 \<and> c ! a = c ! b \<and> c ! a = c ! d
        then (ls @ [[a, b, d]], if c ! a \<in> set ws then ws else ws @ [c ! a])
        else (ls, ws))"

definition calculateWinners :: "config \<Rightarrow> winnerInfo" where
  "calculateWinners c =
     (case foldl (winners_step c) ([], []) winningLines_table of (ls, ws) \<Rightarrow>
        \<lparr> wi_winners = ws, wi_hasWinner = (length ws > 0), wi_lines = ls \<rparr>)"

definition checkValid :: "nat \<Rightarrow> nat \<Rightarrow> nat \<Rightarrow> bool" where
  "checkValid c0 c1 c2 =
     (let totalPieces = c1 + c2 in
      if c0 + totalPieces \<noteq> 9 then False
      else if \<bar>int c1 - int c2\<bar> > 1 then False
      else True)"

definition checkValidFirstPlayerX :: "nat \<Rightarrow> nat \<Rightarrow> nat \<Rightarrow> winnerInfo \<Rightarrow> bool" where
  "checkValidFirstPlayerX c0 c1 c2 wi =
     (if c1 < c2 \<or> c1 > c2 + 1 then False
      else if length (wi_winners wi) > 1 \<and> 1 \<in> set (wi_winners wi) \<and> 2 \<in> set (wi_winners wi)
        then False
      else if wi_hasWinner wi \<and> 1 \<in> set (wi_winners wi) \<and> c1 \<le> c2 then False
      else if wi_hasWinner wi \<and> 2 \<in> set (wi_winners wi) \<and> c1 \<noteq> c2 then False
      else True)"

text \<open>\<open>_analyze\<close>, on the \<open>config\<close>, \<open>id\<close> and \<open>decimalId\<close> the constructor has set.\<close>

definition analyze :: "config \<Rightarrow> string \<Rightarrow> int option \<Rightarrow> TicTacToeState" where
  "analyze c i d =
     (let n0 = length (filter (\<lambda>v. v = 0) c);
          n1 = length (filter (\<lambda>v. v = 1) c);
          n2 = length (filter (\<lambda>v. v = 2) c);
          wi = calculateWinners c;
          unique = (length (wi_winners wi) = 1);
          valid = checkValid n0 n1 n2;
          validX = checkValidFirstPlayerX n0 n1 n2 wi;
          np = (if \<not> valid then Null
                else if n1 = n2 then Undefined
                else if n1 > n2 then Player 2 else Player 1)
      in \<lparr> config = c,
           id_field = i,
           decimalId = d,
           count0 = n0,
           count1 = n1,
           count2 = n2,
           turnCount = n1 + n2,
           winners = wi_winners wi,
           hasWinner = wi_hasWinner wi,
           winningLines = wi_lines wi,
           hasUniqueWinner = unique,
           isValid = valid,
           isValidFirstPlayerX = validX,
           nextPlayer = np,
           nextPlayerFirstPlayerX =
             (if \<not> validX then Null else if n1 = n2 then Player 1 else Player 2),
           isTerminal = (valid \<and> (wi_hasWinner wi \<or> n0 = 0)),
           isValidOneWinner = (valid \<and> unique),
           isValidWinningPosition =
             (unique \<and> np = Player (if wi_winners wi ! 0 = 1 then 2 else 1)),
           canonical = getCanonicalForm c \<rparr>)"

text \<open>
  The constructor. \<^verbatim>\<open>Array.isArray(config)\<close> holds of every list; the only check
  left is the length.
\<close>

definition new_TicTacToeState :: "config \<Rightarrow> error + TicTacToeState" where
  "new_TicTacToeState c =
     (if length c \<noteq> 9 then Inl ConfigError
      else Inr (analyze c (join c) (parseInt3 (join c))))"

text \<open>
  \<open>getPossibleMoves\<close>: \<^verbatim>\<open>config.map((val, idx) => val === 0 ? idx : -1).filter(idx => idx !== -1)\<close>
\<close>

definition getPossibleMoves :: "TicTacToeState \<Rightarrow> int list" where
  "getPossibleMoves st =
     (if \<not> isValid st \<or> isTerminal st then []
      else filter (\<lambda>idx. idx \<noteq> - 1)
             (map (\<lambda>(val, idx). if val = 0 then int idx else - 1)
                (zip (config st) [0 ..< length (config st)])))"

text \<open>
  \<^verbatim>\<open>config[position]\<close> for an integer \<open>position\<close>: \<open>None\<close> is \<^verbatim>\<open>undefined\<close>, the
  value of a read outside the array.
\<close>

definition array_get :: "config \<Rightarrow> int \<Rightarrow> int option" where
  "array_get c position =
     (if 0 \<le> position \<and> position < int (length c) then Some (c ! nat position) else None)"

text \<open>\<^verbatim>\<open>this.nextPlayer || 1\<close>: \<^verbatim>\<open>null\<close>, \<^verbatim>\<open>undefined\<close> and \<open>0\<close> are falsy.\<close>

definition or_1 :: "next_player \<Rightarrow> int" where
  "or_1 np = (case np of Null \<Rightarrow> 1 | Undefined \<Rightarrow> 1 | Player p \<Rightarrow> if p = 0 then 1 else p)"

definition makeMove :: "TicTacToeState \<Rightarrow> int \<Rightarrow> error + TicTacToeState" where
  "makeMove st position =
     (if \<not> isValid st \<or> isTerminal st then Inl MoveStateError
      else if array_get (config st) position \<noteq> Some 0 then Inl OccupiedError
      else let newConfig = config st;
               newConfig = newConfig [nat position := or_1 (nextPlayer st)]
           in new_TicTacToeState newConfig)"

definition empty_state :: "error + TicTacToeState" where
  "empty_state = new_TicTacToeState [0, 0, 0, 0, 0, 0, 0, 0, 0]"

section \<open>StateGenerator\<close>

record StateGenerator =
  allStates :: "TicTacToeState list"
  canonicalMap :: "(string \<times> TicTacToeState) list"

text \<open>The JavaScript \<^verbatim>\<open>Map\<close> is an association list in insertion order.\<close>

definition new_StateGenerator :: StateGenerator where
  "new_StateGenerator = \<lparr> allStates = [], canonicalMap = [] \<rparr>"

text \<open>
  \<^verbatim>\<open>const id = i.toString(3).padStart(9, '0'); const config = id.split('').map(Number);\<close>
\<close>

definition generateAll_config :: "nat \<Rightarrow> config" where
  "generateAll_config i = (let ident = padStart 9 (CHR ''0'') (toString3 i) in map Number_char ident)"

fun generateAll_loop :: "nat list \<Rightarrow> StateGenerator \<Rightarrow> error + StateGenerator" where
  "generateAll_loop [] g = Inr g"
| "generateAll_loop (i # rest) g =
     (case new_TicTacToeState (generateAll_config i) of
        Inl e \<Rightarrow> Inl e
      | Inr state \<Rightarrow>
          generateAll_loop rest
            (g \<lparr> allStates := allStates g @ [state],
                 canonicalMap :=
                   (if map_of (canonicalMap g) (canonical state) = None
                    then AList.update (canonical state) state (canonicalMap g)
                    else canonicalMap g) \<rparr>))"

text \<open>The Board State that iteration \<open>i\<close> of the loop constructs.\<close>

definition mk_state :: "nat \<Rightarrow> TicTacToeState" where
  "mk_state i = analyze (generateAll_config i) (join (generateAll_config i))
     (parseInt3 (join (generateAll_config i)))"

text \<open>\<open>generateAll\<close> returns \<open>this.allStates\<close>, the \<open>allStates\<close> field of the result here.\<close>

definition generateAll :: "StateGenerator \<Rightarrow> error + StateGenerator" where
  "generateAll g = generateAll_loop [0 ..< 19683] (g \<lparr> allStates := [] \<rparr>)"

text \<open>\<open>None\<close> is \<^verbatim>\<open>undefined\<close>: the index is \<^verbatim>\<open>NaN\<close> or outside the array.\<close>

definition getStateById :: "StateGenerator \<Rightarrow> string \<Rightarrow> TicTacToeState option" where
  "getStateById g ident =
     (case parseInt3 ident of
        None \<Rightarrow> None
      | Some d \<Rightarrow>
          if 0 \<le> d \<and> d < int (length (allStates g)) then Some (allStates g ! nat d) else None)"

definition filterByProperty :: "StateGenerator \<Rightarrow> (TicTacToeState \<Rightarrow> bool) \<Rightarrow> TicTacToeState list" where
  "filterByProperty g predicate = filter predicate (allStates g)"

definition getValidStatesFirstPlayerX :: "StateGenerator \<Rightarrow> TicTacToeState list" where
  "getValidStatesFirstPlayerX g = filterByProperty g isValidFirstPlayerX"

definition getCanonicalValidStatesFirstPlayerX :: "StateGenerator \<Rightarrow> TicTacToeState list" where
  "getCanonicalValidStatesFirstPlayerX g =
     filter (\<lambda>state. list_ex (\<lambda>s. canonical s = canonical state) (getValidStatesFirstPlayerX g))
       (map snd (canonicalMap g))"

section \<open>Win-probability search\<close>

text \<open>
  Scores are JavaScript numbers: the loops start from \<^verbatim>\<open>-Infinity\<close> and
  \<^verbatim>\<open>Infinity\<close>. The module-level \<^verbatim>\<open>minimaxCache\<close> is passed in and returned.
\<close>


datatype js_number = NegInfinity | Num int | PosInfinity







section \<open>StateGraph\<close>

record node =
  state :: TicTacToeState
  parent :: "string option"
  children :: "string list"
  depth :: nat

record StateGraph =
  graph :: "string \<rightharpoonup> node"
  root :: "string option"

definition new_StateGraph :: StateGraph where
  "new_StateGraph = \<lparr> graph = Map.empty, root = None \<rparr>"

definition state_key :: "bool \<Rightarrow> TicTacToeState \<Rightarrow> string" where
  "state_key useCanonical st = (if useCanonical then canonical st else id_field st)"

fun buildTree_moves ::
  "bool \<Rightarrow> TicTacToeState \<Rightarrow> string \<Rightarrow> int list \<Rightarrow> (string \<rightharpoonup> node) \<Rightarrow> TicTacToeState list
     \<Rightarrow> error + (string \<rightharpoonup> node) \<times> TicTacToeState list" where
  "buildTree_moves useCanonical currentState currentKey [] g queue = Inr (g, queue)"
| "buildTree_moves useCanonical currentState currentKey (move # moves) g queue =
     (case makeMove currentState move of
        Inl e \<Rightarrow> Inl e
      | Inr newState \<Rightarrow>
          (case g currentKey of
             None \<Rightarrow> Inl NodeTypeError
           | Some currentNode \<Rightarrow>
               let stateId = state_key useCanonical newState;
                   (g, queue) =
                     (if g stateId = None
                      then (g (stateId \<mapsto> \<lparr> state = newState, parent = Some currentKey,
                                            children = [], depth = depth currentNode + 1 \<rparr>),
                            queue @ [newState])
                      else (g, queue));
                   g = g (currentKey \<mapsto> currentNode \<lparr> children := children currentNode @ [stateId] \<rparr>)
               in buildTree_moves useCanonical currentState currentKey moves g queue))"

partial_function (option) buildTree_loop ::
  "bool \<Rightarrow> (string \<rightharpoonup> node) \<Rightarrow> TicTacToeState list \<Rightarrow> (error + (string \<rightharpoonup> node)) option" where
  "buildTree_loop useCanonical g queue =
     (case queue of
        [] \<Rightarrow> Some (Inr g)
      | currentState # queue \<Rightarrow>
          let currentKey = state_key useCanonical currentState in
          if isTerminal currentState then buildTree_loop useCanonical g queue
          else
            (case buildTree_moves useCanonical currentState currentKey
                    (getPossibleMoves currentState) g queue of
               Inl e \<Rightarrow> Some (Inl e)
             | Inr (g, queue) \<Rightarrow> buildTree_loop useCanonical g queue))"

definition buildTree :: "bool \<Rightarrow> StateGraph \<Rightarrow> (error + StateGraph) option" where
  "buildTree useCanonical this =
     (case empty_state of
        Inl e \<Rightarrow> Some (Inl e)
      | Inr currentNode \<Rightarrow>
          let g = (graph this) (id_field currentNode \<mapsto>
                     \<lparr> state = currentNode, parent = None, children = [], depth = 0 \<rparr>)
          in (case buildTree_loop useCanonical g [currentNode] of
                None \<Rightarrow> None
              | Some (Inl e) \<Rightarrow> Some (Inl e)
              | Some (Inr g) \<Rightarrow> Some (Inr \<lparr> graph = g, root = Some (id_field currentNode) \<rparr>)))"


section \<open>makeMove on a store of arrays\<close>

text \<open>
  The constructor keeps the array it is given (\<^verbatim>\<open>this.config = config\<close>), and
  \<open>makeMove\<close> writes into an array. To state what is and is not mutated, arrays live in
  a store: an address is an index into the list of allocated arrays, and a Board State
  object is the address of its \<open>config\<close> array together with the fields computed when it
  was constructed. \<^verbatim>\<open>[...this.config]\<close> allocates a fresh array.
\<close>

type_synonym store = "config list"

record TicTacToeState_obj =
  config_ref :: nat
  cached :: TicTacToeState

definition makeMove_store ::
  "store \<Rightarrow> TicTacToeState_obj \<Rightarrow> int \<Rightarrow> store \<times> (error + TicTacToeState_obj)" where
  "makeMove_store s this position =
     (if \<not> isValid (cached this) \<or> isTerminal (cached this) then (s, Inl MoveStateError)
      else if array_get (s ! config_ref this) position \<noteq> Some 0 then (s, Inl OccupiedError)
      else let newConfig = length s;
               s = s @ [s ! config_ref this];
               s = s [newConfig := (s ! newConfig) [nat position := or_1 (nextPlayer (cached this))]]
           in (s, case new_TicTacToeState (s ! newConfig) of
                    Inl e \<Rightarrow> Inl e
                  | Inr st \<Rightarrow> Inr \<lparr> config_ref = newConfig, cached = st \<rparr>))"


section \<open>Notions of the specification\<close>

text \<open>The well-formed configurations: nine cells, each 0, 1 or 2.\<close>

definition Cfg :: "config set" where
  "Cfg = {c. set c \<subseteq> {0, 1, 2} \<and> length c = 9}"

text \<open>The Board State that the constructor builds from a 9-element configuration.\<close>

definition state_of :: "config \<Rightarrow> TicTacToeState" where
  "state_of c = analyze c (join c) (parseInt3 (join c))"

text \<open>
  A player value \<open>p\<close> has a winning line on \<open>c\<close> when one of the eight lines of the
  board holds \<open>p\<close> in its three cells (the specification's reading of \<open>winners\<close>).
\<close>

definition has_winning_line :: "config \<Rightarrow> int \<Rightarrow> bool" where
  "has_winning_line c p \<longleftrightarrow>
     (\<exists>(a, b, d) \<in> set winningLines_table. c ! a = p \<and> c ! b = p \<and> c ! d = p)"

text \<open>
  The base-3 digits of \<open>n\<close>, most significant first, on \<open>m\<close> places: digit \<open>k\<close> is
  \<open>(n div 3 ^ (m - 1 - k)) mod 3\<close>.
\<close>

definition base3_digit :: "nat \<Rightarrow> nat \<Rightarrow> nat \<Rightarrow> nat" where
  "base3_digit m n k = (n div 3 ^ (m - 1 - k)) mod 3"

text \<open>
  States reachable from the empty board by sequences of legal moves: a move is legal
  when \<open>makeMove\<close> accepts it.
\<close>

inductive reachable :: "TicTacToeState \<Rightarrow> bool" where
  reachable_empty: "empty_state = Inr st \<Longrightarrow> reachable st"
| reachable_move: "reachable st \<Longrightarrow> makeMove st position = Inr st' \<Longrightarrow> reachable st'"







section \<open>Invariant of the breadth-first traversal\<close>

text \<open>
  What holds of the graph \<open>g\<close> and the queue whenever \<open>buildTree\<close> is between two
  moves. \<open>X\<close> holds the moves of the state being expanded that are still to be made.
  Every node stores a well-formed reachable state under that state's key; every queued
  state is the state of its node; every legal move from a node's state leads to a key of
  the graph that is listed among the node's children, unless the state is still queued
  or the move is still to be made; terminal nodes have no children; along every edge
  the turn count grows by one; the empty board is a node.
\<close>

definition nodes_ok :: "bool \<Rightarrow> (string \<rightharpoonup> node) \<Rightarrow> bool" where
  "nodes_ok uc g \<longleftrightarrow>
     (\<forall>k n. g k = Some n \<longrightarrow>
        (\<exists>c \<in> Cfg. state n = state_of c) \<and> state_key uc (state n) = k \<and> reachable (state n))"

definition queue_ok :: "bool \<Rightarrow> (string \<rightharpoonup> node) \<Rightarrow> TicTacToeState list \<Rightarrow> bool" where
  "queue_ok uc g queue \<longleftrightarrow>
     (\<forall>q \<in> set queue. \<exists>n. g (state_key uc q) = Some n \<and> state n = q)"

definition closed_ok ::
  "bool \<Rightarrow> (string \<rightharpoonup> node) \<Rightarrow> TicTacToeState list \<Rightarrow> (TicTacToeState \<times> int) set \<Rightarrow> bool" where
  "closed_ok uc g queue X \<longleftrightarrow>
     (\<forall>k n position st'. g k = Some n \<longrightarrow> makeMove (state n) position = Inr st' \<longrightarrow>
        state n \<in> set queue \<or> (state n, position) \<in> X \<or>
        (g (state_key uc st') \<noteq> None \<and> state_key uc st' \<in> set (children n)))"

definition terminal_ok :: "(string \<rightharpoonup> node) \<Rightarrow> bool" where
  "terminal_ok g \<longleftrightarrow> (\<forall>k n. g k = Some n \<longrightarrow> isTerminal (state n) \<longrightarrow> children n = [])"

definition edges_ok :: "(string \<rightharpoonup> node) \<Rightarrow> bool" where
  "edges_ok g \<longleftrightarrow>
     (\<forall>k n c. g k = Some n \<longrightarrow> c \<in> set (children n) \<longrightarrow>
        (\<exists>n'. g c = Some n' \<and> turnCount (state n') = Suc (turnCount (state n))))"

definition graph_inv ::
  "bool \<Rightarrow> (string \<rightharpoonup> node) \<Rightarrow> TicTacToeState list \<Rightarrow> (TicTacToeState \<times> int) set \<Rightarrow> bool" where
  "graph_inv uc g queue X \<longleftrightarrow>
     nodes_ok uc g \<and> queue_ok uc g queue \<and> closed_ok uc g queue X \<and> terminal_ok g \<and>
     edges_ok g \<and> g (join [0, 0, 0, 0, 0, 0, 0, 0, 0]) \<noteq> None"

text \<open>
  The quantity that decreases with every state taken from the queue: keys are encodings
  of well-formed configurations, of which there are finitely many.
\<close>

definition traversal_measure :: "(string \<rightharpoonup> node) \<Rightarrow> TicTacToeState list \<Rightarrow> nat" where
  "traversal_measure g queue = 2 * card (join ` Cfg - dom g) + length queue"

section \<open>Counting canonical configurations by enumeration\<close>

text \<open>
  Functions used to count, by exhaustive enumeration of the \<open>3 ^ 9\<close> configurations,
  those that are strictly valid and equal to their own canonical representative.
\<close>

fun lex_le :: "int list \<Rightarrow> int list \<Rightarrow> bool" where
  "lex_le [] ys = True"
| "lex_le (x # xs) [] = False"
| "lex_le (x # xs) (y # ys) = (if x < y then True else if y < x then False else lex_le xs ys)"

fun canon9 :: "int list \<Rightarrow> bool" where
  "canon9 [a, b, c, d, e, f, g, h, i] =
     (if lex_le [a, b, c, d, e, f, g, h, i] [g, d, a, h, e, b, i, f, c] then
      if lex_le [a, b, c, d, e, f, g, h, i] [i, h, g, f, e, d, c, b, a] then
      if lex_le [a, b, c, d, e, f, g, h, i] [c, f, i, b, e, h, a, d, g] then
      if lex_le [a, b, c, d, e, f, g, h, i] [g, h, i, d, e, f, a, b, c] then
      if lex_le [a, b, c, d, e, f, g, h, i] [c, b, a, f, e, d, i, h, g] then
      if lex_le [a, b, c, d, e, f, g, h, i] [a, d, g, b, e, h, c, f, i] then
      lex_le [a, b, c, d, e, f, g, h, i] [i, f, c, h, e, b, g, d, a]
      else False else False else False else False else False else False)"
| "canon9 _ = False"

definition line3 :: "int \<Rightarrow> int \<Rightarrow> int \<Rightarrow> int \<Rightarrow> bool" where
  "line3 p x y z = (if x = p then if y = p then z = p else False else False)"

fun line9 :: "int \<Rightarrow> int list \<Rightarrow> bool" where
  "line9 p [a, b, c, d, e, f, g, h, i] =
     (if line3 p a b c then True else if line3 p d e f then True else if line3 p g h i then True
      else if line3 p a d g then True else if line3 p b e h then True
      else if line3 p c f i then True else if line3 p a e i then True else line3 p c e g)"
| "line9 p _ = False"

definition leafP :: "int list \<Rightarrow> nat \<Rightarrow> nat \<Rightarrow> bool" where
  "leafP acc n1 n2 =
     (if n1 = n2 then (if canon9 acc then \<not> line9 1 acc else False)
      else if n1 = Suc n2 then (if canon9 acc then \<not> line9 2 acc else False)
      else False)"

fun count_canonical :: "nat \<Rightarrow> int list \<Rightarrow> nat \<Rightarrow> nat \<Rightarrow> nat \<Rightarrow> nat" where
  "count_canonical 0 acc n1 n2 t = (if leafP acc n1 n2 then Suc t else t)"
| "count_canonical (Suc k) acc n1 n2 t =
     count_canonical k (2 # acc) n1 (Suc n2)
       (count_canonical k (1 # acc) (Suc n1) n2 (count_canonical k (0 # acc) n1 n2 t))"


section \<open>Symmetry invariance of the canonical form\<close>

lemma foldl_min_eq_Min:
  fixes a :: "'a::linorder"
  shows "foldl (\<lambda>mn current. if current < mn then current else mn) a xs = Min (insert a (set xs))"
proof (induction xs arbitrary: a)
  case Nil
  then show ?case by simp
next
  case (Cons x xs)
  have "(if x < a then x else a) = min a x" by (auto simp: min_def)
  then have "foldl (\<lambda>mn current. if current < mn then current else mn) a (x # xs)
      = Min (insert (min a x) (set xs))"
    using Cons.IH [of "min a x"] by simp
  also have "\<dots> = Min (insert a (insert x (set xs)))"
    by (cases "set xs = {}") (simp_all add: Min_insert min.assoc)
  finally show ?case by simp
qed

lemma getCanonicalForm_Min:
  "getCanonicalForm c = Min (join ` set (getAllSymmetries c))"
proof -
  let ?ss = "map join (getAllSymmetries c)"
  have "0 < length ?ss" by (simp add: getAllSymmetries_def)
  then have "?ss ! 0 \<in> set ?ss" by (rule nth_mem)
  then have "insert (?ss ! 0) (set ?ss) = set ?ss" by (rule insert_absorb)
  then have "getCanonicalForm c = Min (set ?ss)"
    unfolding getCanonicalForm_def Let_def foldl_min_eq_Min by (rule arg_cong)
  then show ?thesis by (simp only: set_map)
qed

lemma length9_cases:
  assumes "length (c :: 'a list) = 9"
  obtains x0 x1 x2 x3 x4 x5 x6 x7 x8 where "c = [x0, x1, x2, x3, x4, x5, x6, x7, x8]"
proof -
  from assms obtain x0 c1 where c0: "c = x0 # c1" "length c1 = 8" by (cases c) auto
  then obtain x1 c2 where c1: "c1 = x1 # c2" "length c2 = 7" by (cases c1) auto
  then obtain x2 c3 where c2: "c2 = x2 # c3" "length c3 = 6" by (cases c2) auto
  then obtain x3 c4 where c3: "c3 = x3 # c4" "length c4 = 5" by (cases c3) auto
  then obtain x4 c5 where c4: "c4 = x4 # c5" "length c5 = 4" by (cases c4) auto
  then obtain x5 c6 where c5: "c5 = x5 # c6" "length c6 = 3" by (cases c5) auto
  then obtain x6 c7 where c6: "c6 = x6 # c7" "length c7 = 2" by (cases c6) auto
  then obtain x7 c8 where c7: "c7 = x7 # c8" "length c8 = 1" by (cases c7) auto
  then obtain x8 where c8: "c8 = [x8]" by (cases c8) auto
  show thesis using that c0 c1 c2 c3 c4 c5 c6 c7 c8 by simp
qed

lemmas transform_defs =
  rotate90_def rotate180_def rotate270_def reflectHorizontal_def reflectVertical_def
  reflectDiagonal_def reflectAntiDiagonal_def

lemma set_getAllSymmetries_transform:
  assumes "length c = 9" and "t \<in> set symmetry_transforms"
  shows "set (getAllSymmetries (t c)) = set (getAllSymmetries c)"
proof -
  from assms(1) obtain x0 x1 x2 x3 x4 x5 x6 x7 x8
    where c: "c = [x0, x1, x2, x3, x4, x5, x6, x7, x8]" by (rule length9_cases)
  from assms(2) consider "t = (\<lambda>c. c)" | "t = rotate90" | "t = rotate180" | "t = rotate270"
    | "t = reflectHorizontal" | "t = reflectVertical" | "t = reflectDiagonal"
    | "t = reflectAntiDiagonal"
    by (auto simp: symmetry_transforms_def)
  then show ?thesis
  proof cases
    case 1 then show ?thesis by simp
  next
    case 2 then show ?thesis unfolding c getAllSymmetries_def transform_defs by (simp add: insert_commute)
  next
    case 3 then show ?thesis unfolding c getAllSymmetries_def transform_defs by (simp add: insert_commute)
  next
    case 4 then show ?thesis unfolding c getAllSymmetries_def transform_defs by (simp add: insert_commute)
  next
    case 5 then show ?thesis unfolding c getAllSymmetries_def transform_defs by (simp add: insert_commute)
  next
    case 6 then show ?thesis unfolding c getAllSymmetries_def transform_defs by (simp add: insert_commute)
  next
    case 7 then show ?thesis unfolding c getAllSymmetries_def transform_defs by (simp add: insert_commute)
  next
    case 8 then show ?thesis unfolding c getAllSymmetries_def transform_defs by (simp add: insert_commute)
  qed
qed

text \<open>
  C3. For every 9-element configuration \<open>c\<close> and each of the 8 symmetry transforms \<open>t\<close>
  (identity, rotate90, rotate180, rotate270, reflectHorizontal, reflectVertical,
  reflectDiagonal, reflectAntiDiagonal), the canonical form of \<open>t c\<close> is the canonical
  form of \<open>c\<close>.
\<close>

theorem getCanonicalForm_symmetry_invariant:
  assumes "length c = 9" and "t \<in> set symmetry_transforms"
  shows "getCanonicalForm (t c) = getCanonicalForm c"
  using set_getAllSymmetries_transform [OF assms] by (simp add: getCanonicalForm_Min)


section \<open>Classification of a configuration\<close>

lemma foldl_winners_step_set:
  "set (snd (foldl (winners_step c) (ls, ws) tbl)) =
     set ws \<union> {p. p \<noteq> 0 \<and> (\<exists>(a, b, d) \<in> set tbl. c ! a = p \<and> c ! b = p \<and> c ! d = p)}"
proof (induction tbl arbitrary: ls ws)
  case Nil
  then show ?case by simp
next
  case (Cons line tbl)
  obtain a b d where line: "line = (a, b, d)" by (cases line) auto
  show ?case
  proof (cases "c ! a \<noteq> 0 \<and> c ! a = c ! b \<and> c ! a = c ! d")
    case True
    then have step: "winners_step c (ls, ws) line =
        (ls @ [[a, b, d]], if c ! a \<in> set ws then ws else ws @ [c ! a])"
      by (simp add: winners_step_def line)
    show ?thesis
      unfolding foldl_Cons step Cons.IH using True by (auto simp: line)
  next
    case False
    then have step: "winners_step c (ls, ws) line = (ls, ws)"
      by (auto simp: winners_step_def line)
    show ?thesis
      unfolding foldl_Cons step Cons.IH using False by (auto simp: line)
  qed
qed

lemma set_winners_calculateWinners:
  "set (wi_winners (calculateWinners c)) = {p. p \<noteq> 0 \<and> has_winning_line c p}"
proof -
  obtain ls ws where f: "foldl (winners_step c) ([], []) winningLines_table = (ls, ws)"
    by (cases "foldl (winners_step c) ([], []) winningLines_table") auto
  have "set ws = {p. p \<noteq> 0 \<and> has_winning_line c p}"
    using foldl_winners_step_set [of c "[]" "[]" winningLines_table]
    by (simp add: f has_winning_line_def)
  then show ?thesis by (simp add: calculateWinners_def f)
qed

lemma hasWinner_calculateWinners:
  "wi_hasWinner (calculateWinners c) \<longleftrightarrow> wi_winners (calculateWinners c) \<noteq> []"
  by (simp add: calculateWinners_def split: prod.splits)

lemma two_members_length:
  assumes "x \<in> set ws" and "y \<in> set ws" and "x \<noteq> y"
  shows "1 < length ws"
proof -
  have "card {x, y} \<le> card (set ws)"
    by (rule card_mono) (use assms in simp_all)
  moreover have "card {x, y} = 2" using assms(3) by simp
  moreover have "card (set ws) \<le> length ws" by (rule card_length)
  ultimately show ?thesis by linarith
qed

lemma checkValidFirstPlayerX_bool:
  assumes "A \<and> B \<longrightarrow> L" and "A \<longrightarrow> H" and "B \<longrightarrow> H"
  shows "(if (n1::nat) < n2 \<or> n1 > n2 + 1 then False
      else if L \<and> A \<and> B then False
      else if H \<and> A \<and> n1 \<le> n2 then False
      else if H \<and> B \<and> n1 \<noteq> n2 then False
      else True) \<longleftrightarrow>
     (n1 = n2 \<or> n1 = n2 + 1) \<and> \<not> (A \<and> B) \<and> (A \<longrightarrow> n1 > n2) \<and> (B \<longrightarrow> n1 = n2)"
proof (cases "n1 < n2 \<or> n1 > n2 + 1")
  case True
  then show ?thesis by auto
next
  case False
  then have "n1 = n2 \<or> n1 = n2 + 1" by auto
  with False assms show ?thesis by (cases A; cases B) auto
qed

lemma checkValidFirstPlayerX_iff:
  "checkValidFirstPlayerX n0 n1 n2 (calculateWinners c) \<longleftrightarrow>
     (n1 = n2 \<or> n1 = n2 + 1) \<and>
     \<not> (has_winning_line c 1 \<and> has_winning_line c 2) \<and>
     (has_winning_line c 1 \<longrightarrow> n1 > n2) \<and>
     (has_winning_line c 2 \<longrightarrow> n1 = n2)"
proof -
  let ?ws = "wi_winners (calculateWinners c)"
  have m1: "has_winning_line c 1 \<longleftrightarrow> 1 \<in> set ?ws"
    and m2: "has_winning_line c 2 \<longleftrightarrow> 2 \<in> set ?ws"
    by (simp_all add: set_winners_calculateWinners)
  have both: "1 \<in> set ?ws \<and> 2 \<in> set ?ws \<longrightarrow> 1 < length ?ws"
    using two_members_length [of 1 ?ws 2] by simp
  have hw1: "1 \<in> set ?ws \<longrightarrow> wi_hasWinner (calculateWinners c)"
    and hw2: "2 \<in> set ?ws \<longrightarrow> wi_hasWinner (calculateWinners c)"
    unfolding hasWinner_calculateWinners by (metis empty_iff empty_set)+
  show ?thesis
    unfolding checkValidFirstPlayerX_def m1 m2
    by (rule checkValidFirstPlayerX_bool [OF both hw1 hw2])
qed

lemma length_filter_eq_count_list: "length (filter (\<lambda>v. v = x) c) = count_list c x"
  by (induction c) auto

lemma new_TicTacToeState_Inr:
  "new_TicTacToeState c = Inr st \<longleftrightarrow>
     length c = 9 \<and> st = analyze c (join c) (parseInt3 (join c))"
  by (auto simp: new_TicTacToeState_def)

text \<open>
  C1. For every 9-element configuration, \<open>isValidFirstPlayerX\<close> of its Board State holds
  if and only if the number of A cells is the number of B cells or one more, the two
  players do not both have a winning line, A has a winning line only if A has more cells
  than B, and B has a winning line only if the two counts are equal. The counts are the
  state's \<open>count1\<close> and \<open>count2\<close>, which are the numbers of cells holding 1 and 2.
\<close>

theorem isValidFirstPlayerX_iff:
  assumes "new_TicTacToeState c = Inr st"
  shows "count1 st = count_list c 1 \<and> count2 st = count_list c 2 \<and>
    (isValidFirstPlayerX st \<longleftrightarrow>
       (count1 st = count2 st \<or> count1 st = count2 st + 1) \<and>
       \<not> (has_winning_line c 1 \<and> has_winning_line c 2) \<and>
       (has_winning_line c 1 \<longrightarrow> count1 st > count2 st) \<and>
       (has_winning_line c 2 \<longrightarrow> count1 st = count2 st))"
proof -
  from assms have st: "st = analyze c (join c) (parseInt3 (join c))"
    by (simp add: new_TicTacToeState_Inr)
  have n1: "count1 st = count_list c 1" and n2: "count2 st = count_list c 2"
    by (simp_all add: st analyze_def Let_def length_filter_eq_count_list)
  have "isValidFirstPlayerX st \<longleftrightarrow>
      checkValidFirstPlayerX (count0 st) (count1 st) (count2 st) (calculateWinners c)"
    by (simp add: st analyze_def Let_def)
  then show ?thesis
    unfolding checkValidFirstPlayerX_iff using n1 n2 by simp
qed

theorem isValidFirstPlayerX_iff_witness:
  "new_TicTacToeState [1, 1, 1, 2, 2, 0, 0, 0, 0] =
     Inr (analyze [1, 1, 1, 2, 2, 0, 0, 0, 0] (join [1, 1, 1, 2, 2, 0, 0, 0, 0])
            (parseInt3 (join [1, 1, 1, 2, 2, 0, 0, 0, 0]))) \<and>
   has_winning_line [1, 1, 1, 2, 2, 0, 0, 0, 0] 1 \<and>
   \<not> has_winning_line [1, 1, 1, 2, 2, 0, 0, 0, 0] 2 \<and>
   isValidFirstPlayerX (analyze [1, 1, 1, 2, 2, 0, 0, 0, 0] (join [1, 1, 1, 2, 2, 0, 0, 0, 0])
            (parseInt3 (join [1, 1, 1, 2, 2, 0, 0, 0, 0])))"
proof -
  let ?c = "[1, 1, 1, 2, 2, 0, 0, 0, 0] :: config"
  let ?st = "analyze ?c (join ?c) (parseInt3 (join ?c))"
  have c: "new_TicTacToeState ?c = Inr ?st" by (simp add: new_TicTacToeState_def)
  have l1: "has_winning_line ?c 1" and l2: "\<not> has_winning_line ?c 2"
    by (simp_all add: has_winning_line_def winningLines_table_def)
  from isValidFirstPlayerX_iff [OF c] l1 l2 have "isValidFirstPlayerX ?st" by simp
  with c l1 l2 show ?thesis by simp
qed

theorem getCanonicalForm_symmetry_invariant_witness:
  "length [1, 2, 0, 0, 1, 0, 0, 0, 2 :: int] = 9 \<and> rotate90 \<in> set symmetry_transforms \<and>
   rotate90 [1, 2, 0, 0, 1, 0, 0, 0, 2] = [0, 0, 1, 0, 1, 2, 2, 0, 0] \<and>
   getCanonicalForm [0, 0, 1, 0, 1, 2, 2, 0, 0] = getCanonicalForm [1, 2, 0, 0, 1, 0, 0, 0, 2]"
proof -
  have l: "length [1, 2, 0, 0, 1, 0, 0, 0, 2 :: int] = 9" by simp
  have t: "rotate90 \<in> set symmetry_transforms" by (simp add: symmetry_transforms_def)
  have r: "rotate90 [1, 2, 0, 0, 1, 0, 0, 0, 2] = [0, 0, 1, 0, 1, 2, 2, 0, 0]"
    by (simp add: rotate90_def)
  from getCanonicalForm_symmetry_invariant [OF l t] l t r show ?thesis by simp
qed

section \<open>The constructor and out-of-domain cells\<close>

lemma count_sum_le:
  "length (filter (\<lambda>v. v = 0) c) + length (filter (\<lambda>v. v = 1) c)
     + length (filter (\<lambda>v. v = 2) c) \<le> length (c :: config)"
  by (induction c) auto

lemma count_sum_less:
  assumes "v \<in> set c" and "v \<notin> {0, 1, 2}"
  shows "length (filter (\<lambda>v. v = 0) c) + length (filter (\<lambda>v. v = 1) c)
     + length (filter (\<lambda>v. v = 2) c) < length (c :: config)"
  using assms
proof (induction c)
  case Nil
  then show ?case by simp
next
  case (Cons x c)
  show ?case
  proof (cases "v = x")
    case True
    with Cons.prems(2) count_sum_le [of c] show ?thesis by auto
  next
    case False
    with Cons.prems have "v \<in> set c" by simp
    from Cons.IH [OF this Cons.prems(2)] show ?thesis by auto
  qed
qed

lemma out_of_domain_not_valid:
  assumes "length c = 9" and "v \<in> set c" and "v \<notin> {0, 1, 2}"
  shows "\<not> isValid (analyze c (join c) (parseInt3 (join c)))"
proof -
  have "length (filter (\<lambda>v. v = 0) c) + (length (filter (\<lambda>v. v = 1) c)
      + length (filter (\<lambda>v. v = 2) c)) \<noteq> 9"
    using count_sum_less [OF assms(2,3)] assms(1) by simp
  then show ?thesis by (simp add: analyze_def Let_def checkValid_def)
qed

text \<open>
  C5 (as amended). The constructor raises its input-format error if and only if the
  configuration does not have exactly 9 elements. Every 9-element configuration,
  whatever its cell values, yields a Board State holding that configuration, and when a
  cell is outside \<open>{0, 1, 2}\<close> that state has \<open>isValid = false\<close>.
\<close>

theorem constructor_raises_iff:
  "(new_TicTacToeState c = Inl ConfigError \<longleftrightarrow> length c \<noteq> 9) \<and>
   (isl (new_TicTacToeState c) \<longleftrightarrow> length c \<noteq> 9) \<and>
   (length c = 9 \<longrightarrow>
      (\<exists>st. new_TicTacToeState c = Inr st \<and> config st = c \<and>
         ((\<exists>v \<in> set c. v \<notin> {0, 1, 2}) \<longrightarrow> \<not> isValid st)))"
proof -
  let ?st = "analyze c (join c) (parseInt3 (join c))"
  have raise: "new_TicTacToeState c = Inl ConfigError \<longleftrightarrow> length c \<noteq> 9"
    and isl: "isl (new_TicTacToeState c) \<longleftrightarrow> length c \<noteq> 9"
    by (simp_all add: new_TicTacToeState_def)
  have built: "\<exists>st. new_TicTacToeState c = Inr st \<and> config st = c \<and>
      ((\<exists>v \<in> set c. v \<notin> {0, 1, 2}) \<longrightarrow> \<not> isValid st)" if len: "length c = 9"
  proof -
    have n: "new_TicTacToeState c = Inr ?st" using len by (simp add: new_TicTacToeState_def)
    have cfg: "config ?st = c" by (simp add: analyze_def Let_def)
    have inv: "\<not> isValid ?st" if "\<exists>v \<in> set c. v \<notin> {0, 1, 2}"
    proof -
      from that obtain v where "v \<in> set c" "v \<notin> {0, 1, 2}" by blast
      then show ?thesis by (rule out_of_domain_not_valid [OF len])
    qed
    from n cfg inv show ?thesis by blast
  qed
  from raise isl built show ?thesis by blast
qed

theorem constructor_raises_iff_witness:
  "new_TicTacToeState [0, 1, 2] = Inl ConfigError \<and>
   length [3, 0, 0, 0, 0, 0, 0, 0, 0 :: int] = 9 \<and>
   (\<exists>v \<in> set [3, 0, 0, 0, 0, 0, 0, 0, 0 :: int]. v \<notin> {0, 1, 2}) \<and>
   (\<exists>st. new_TicTacToeState [3, 0, 0, 0, 0, 0, 0, 0, 0] = Inr st \<and>
      config st = [3, 0, 0, 0, 0, 0, 0, 0, 0] \<and> \<not> isValid st)"
proof -
  have l: "length [3, 0, 0, 0, 0, 0, 0, 0, 0 :: int] = 9" by simp
  have v: "\<exists>v \<in> set [3, 0, 0, 0, 0, 0, 0, 0, 0 :: int]. v \<notin> {0, 1, 2}" by simp
  from constructor_raises_iff [of "[0, 1, 2]"]
  have a: "new_TicTacToeState [0, 1, 2] = Inl ConfigError" by simp
  from constructor_raises_iff [of "[3, 0, 0, 0, 0, 0, 0, 0, 0]"] l
  obtain st where st: "new_TicTacToeState [3, 0, 0, 0, 0, 0, 0, 0, 0] = Inr st"
    "config st = [3, 0, 0, 0, 0, 0, 0, 0, 0]"
    "(\<exists>v \<in> set [3, 0, 0, 0, 0, 0, 0, 0, 0 :: int]. v \<notin> {0, 1, 2}) \<longrightarrow> \<not> isValid st"
    by blast
  from st(3) v have "\<not> isValid st" by (rule mp)
  with a l v st(1,2) show ?thesis by blast
qed

text \<open>
  The claim as stated fails: a 9-element configuration holding the out-of-domain value 3
  is accepted by the constructor.
\<close>

theorem constructor_out_of_domain_counterexample:
  "(3::int) \<notin> {0, 1, 2} \<and> 3 \<in> set [3, 0, 0, 0, 0, 0, 0, 0, 0 :: int] \<and>
   \<not> isl (new_TicTacToeState [3, 0, 0, 0, 0, 0, 0, 0, 0])"
  by (simp add: new_TicTacToeState_def)

text \<open>
  C10. For every 9-element array with at least one value outside \<open>{0, 1, 2}\<close> the
  constructor succeeds, and the resulting state has \<open>isValid = false\<close>,
  \<open>isTerminal = false\<close> and no possible moves.
\<close>

theorem out_of_domain_state_invalid:
  assumes "length c = 9" and "v \<in> set c" and "v \<notin> {0, 1, 2}"
  shows "\<exists>st. new_TicTacToeState c = Inr st \<and> \<not> isValid st \<and> \<not> isTerminal st \<and>
    getPossibleMoves st = []"
proof -
  let ?st = "analyze c (join c) (parseInt3 (join c))"
  have c: "new_TicTacToeState c = Inr ?st"
    using assms(1) by (simp add: new_TicTacToeState_def)
  have "count0 ?st + (count1 ?st + count2 ?st) \<noteq> 9"
    using count_sum_less [OF assms(2,3)] assms(1) by (simp add: analyze_def Let_def)
  then have v: "\<not> isValid ?st"
    by (simp add: analyze_def Let_def checkValid_def)
  then have t: "\<not> isTerminal ?st" by (simp add: analyze_def Let_def)
  from v have "getPossibleMoves ?st = []" by (simp add: getPossibleMoves_def)
  with c v t show ?thesis by blast
qed

theorem out_of_domain_state_invalid_witness:
  "length [5, 0, 0, 0, 1, 0, 0, 0, 0 :: int] = 9 \<and> (5::int) \<notin> {0, 1, 2} \<and>
   (\<exists>st. new_TicTacToeState [5, 0, 0, 0, 1, 0, 0, 0, 0] = Inr st \<and> \<not> isValid st \<and>
      \<not> isTerminal st \<and> getPossibleMoves st = [])"
  using out_of_domain_state_invalid [of "[5, 0, 0, 0, 1, 0, 0, 0, 0]" 5] by simp

section \<open>Enumeration order of the generator\<close>


lemma lt3_cases: "(a::nat) < 3 \<Longrightarrow> a = 0 \<or> a = 1 \<or> a = 2" by arith

lemma digit_char_lt3: "digit_char 0 = CHR ''0''" "digit_char 1 = CHR ''1''" "digit_char 2 = CHR ''2''"
  "digit_char (Suc 0) = CHR ''1''"
  by (simp_all add: digit_char_def)

lemma Number_char_digit_char: "a < 3 \<Longrightarrow> Number_char (digit_char a) = int a"
  using lt3_cases [of a] by (auto simp: digit_char_lt3 Number_char_def)

lemma is_digit3_digit_char: "a < 3 \<Longrightarrow> is_digit3 (digit_char a)"
  using lt3_cases [of a] by (auto simp: digit_char_lt3 is_digit3_def)

lemma toString10_lt3: "a < 3 \<Longrightarrow> toString10 a = [digit_char a]"
  by (simp add: toString10.simps)

lemma String_of_int_lt3: "a < 3 \<Longrightarrow> String_of_int (int a) = [digit_char a]"
  by (simp add: String_of_int_def toString10_lt3)

lemma padStart_snoc: "0 < m \<Longrightarrow> padStart m ch (s @ [x]) = padStart (m - 1) ch s @ [x]"
  by (simp add: padStart_def)

lemma base3_digit_lt3: "base3_digit m n k < 3"
  by (simp add: base3_digit_def)

lemma base3_digit_div3:
  assumes "k < m - 1"
  shows "base3_digit m n k = base3_digit (m - 1) (n div 3) k"
proof -
  from assms have "m - 1 - k = Suc (m - 1 - 1 - k)" by simp
  then have "(3::nat) ^ (m - 1 - k) = 3 * 3 ^ (m - 1 - 1 - k)" by simp
  then show ?thesis by (simp add: base3_digit_def div_mult2_eq)
qed

lemma padStart_toString3:
  "n < 3 ^ m \<Longrightarrow> 0 < m \<Longrightarrow>
     padStart m (CHR ''0'') (toString3 n) = map (\<lambda>k. digit_char (base3_digit m n k)) [0 ..< m]"
proof (induction n arbitrary: m rule: toString3.induct)
  case (1 n)
  show ?case
  proof (cases "n < 3")
    case True
    have "padStart m (CHR ''0'') (toString3 n) = replicate (m - 1) (CHR ''0'') @ [digit_char n]"
      using True by (simp add: toString3.simps padStart_def)
    also have "\<dots> = map (\<lambda>k. digit_char (base3_digit m n k)) [0 ..< m]"
    proof (rule nth_equalityI)
      show "length (replicate (m - 1) CHR ''0'' @ [digit_char n]) =
          length (map (\<lambda>k. digit_char (base3_digit m n k)) [0 ..< m])"
        using "1.prems" by simp
    next
      fix i assume "i < length (replicate (m - 1) CHR ''0'' @ [digit_char n])"
      then have i: "i < m" using "1.prems" by simp
      show "(replicate (m - 1) CHR ''0'' @ [digit_char n]) ! i =
          map (\<lambda>k. digit_char (base3_digit m n k)) [0 ..< m] ! i"
      proof (cases "i < m - 1")
        case True
        then have "m - 1 - i = Suc (m - 1 - 1 - i)" by simp
        then have "(3::nat) ^ (m - 1 - i) = 3 * 3 ^ (m - 1 - 1 - i)" by simp
        moreover have "(1::nat) \<le> 3 ^ (m - 1 - 1 - i)" by simp
        ultimately have "(3::nat) \<le> 3 ^ (m - 1 - i)" by simp
        then have "n < 3 ^ (m - 1 - i)" using \<open>n < 3\<close> by linarith
        then have "base3_digit m n i = 0" by (simp add: base3_digit_def)
        with True i show ?thesis by (simp add: nth_append digit_char_lt3)
      next
        case False
        with i have "i = m - 1" by simp
        then show ?thesis using i \<open>n < 3\<close> by (simp add: nth_append base3_digit_def)
      qed
    qed
    finally show ?thesis .
  next
    case False
    then have ts: "toString3 n = toString3 (n div 3) @ [digit_char (n mod 3)]"
      by (subst toString3.simps) simp
    from False "1.prems" have m2: "1 < m"
      by (cases m; cases "m - 1") auto
    have "n div 3 < 3 ^ (m - 1)"
    proof -
      from m2 have "(3::nat) ^ m = 3 * 3 ^ (m - 1)" by (cases m) auto
      with "1.prems"(1) show ?thesis by (simp add: less_mult_imp_div_less mult.commute)
    qed
    from "1.IH" [OF False this] m2
    have IH: "padStart (m - 1) (CHR ''0'') (toString3 (n div 3)) =
        map (\<lambda>k. digit_char (base3_digit (m - 1) (n div 3) k)) [0 ..< m - 1]" by simp
    have up: "[0 ..< m] = [0 ..< m - 1] @ [m - 1]"
      using m2 by (metis Suc_diff_1 less_imp_Suc_add upt_Suc_append zero_le zero_less_Suc)
    have last: "base3_digit m n (m - 1) = n mod 3" by (simp add: base3_digit_def)
    have "map (\<lambda>k. digit_char (base3_digit m n k)) [0 ..< m - 1] =
        map (\<lambda>k. digit_char (base3_digit (m - 1) (n div 3) k)) [0 ..< m - 1]"
      by (rule map_cong) (simp_all add: base3_digit_div3)
    then have "map (\<lambda>k. digit_char (base3_digit m n k)) [0 ..< m] =
        padStart (m - 1) (CHR ''0'') (toString3 (n div 3)) @ [digit_char (n mod 3)]"
      unfolding IH by (subst up) (simp only: map_append list.map last)
    also have "\<dots> = padStart m (CHR ''0'') (toString3 n)"
      unfolding ts using padStart_snoc [OF "1.prems"(2)] by simp
    finally show ?thesis by simp
  qed
qed


lemma generateAll_config_digits:
  assumes "i < 19683"
  shows "generateAll_config i = map (\<lambda>k. int (base3_digit 9 i k)) [0 ..< 9]"
proof -
  have "i < 3 ^ 9" using assms by simp
  then have "padStart 9 (CHR ''0'') (toString3 i) = map (\<lambda>k. digit_char (base3_digit 9 i k)) [0 ..< 9]"
    by (rule padStart_toString3) simp
  then show ?thesis
    by (simp only: generateAll_config_def Let_def map_map comp_def
          Number_char_digit_char [OF base3_digit_lt3])
qed

lemma join_digits:
  assumes "\<forall>d \<in> set ds. d < 3"
  shows "join (map int ds) = map digit_char ds"
  using assms by (induction ds) (simp_all add: join_def String_of_int_lt3)

lemma takeWhile_digits:
  assumes "\<forall>d \<in> set ds. d < 3"
  shows "takeWhile is_digit3 (map digit_char ds) = map digit_char ds"
  using assms by (induction ds) (simp_all add: is_digit3_digit_char)

lemma foldl_digits:
  assumes "\<forall>d \<in> set ds. d < 3"
  shows "foldl (\<lambda>acc ch. 3 * acc + Number_char ch) a (map digit_char ds) =
    foldl (\<lambda>acc d. 3 * acc + int d) a ds"
  using assms by (induction ds arbitrary: a) (simp_all add: Number_char_digit_char)

lemma digit_char_not_sign:
  assumes "d < 3"
  shows "digit_char d \<noteq> CHR ''-''" "digit_char d \<noteq> CHR ''+''"
  using lt3_cases [OF assms] by (auto simp: digit_char_lt3)

lemma parseInt3_digits:
  assumes "\<forall>d \<in> set ds. d < 3" and "ds \<noteq> []"
  shows "parseInt3 (map digit_char ds) = Some (foldl (\<lambda>acc d. 3 * acc + int d) 0 ds)"
proof -
  from assms(2) obtain d r where ds: "ds = d # r" by (cases ds) auto
  with assms(1) have "d < 3" by simp
  then have sign: "digit_char d \<noteq> CHR ''-''" "digit_char d \<noteq> CHR ''+''"
    by (rule digit_char_not_sign)+
  have "parseInt3 (map digit_char ds) = parseInt3_unsigned (map digit_char ds)"
    by (simp add: parseInt3_def ds sign)
  also have "\<dots> = Some (digits3_value (map digit_char ds))"
    using assms(2) by (simp add: parseInt3_unsigned_def takeWhile_digits [OF assms(1)])
  finally show ?thesis by (simp add: digits3_value_def foldl_digits [OF assms(1)])
qed

lemma foldl_base3_digits:
  "foldl (\<lambda>acc d. 3 * acc + int d) a (map (base3_digit m n) [0 ..< m]) =
     a * 3 ^ m + int (n mod 3 ^ m)"
proof (induction m arbitrary: n)
  case 0
  then show ?case by simp
next
  case (Suc m)
  have m: "map (base3_digit (Suc m) n) [0 ..< m] = map (base3_digit m (n div 3)) [0 ..< m]"
    by (rule map_cong) (use base3_digit_div3 [of _ "Suc m" n] in simp_all)
  have l: "base3_digit (Suc m) n m = n mod 3" by (simp add: base3_digit_def)
  have d: "n mod (3 * 3 ^ m) = 3 * ((n div 3) mod 3 ^ m) + n mod 3"
    by (simp add: mod_mult2_eq)
  have "foldl (\<lambda>acc d. 3 * acc + int d) a (map (base3_digit (Suc m) n) [0 ..< Suc m]) =
      3 * foldl (\<lambda>acc d. 3 * acc + int d) a (map (base3_digit m (n div 3)) [0 ..< m])
        + int (n mod 3)"
    by (simp add: m l)
  also have "\<dots> = 3 * (a * 3 ^ m + int ((n div 3) mod 3 ^ m)) + int (n mod 3)"
    by (simp only: Suc.IH)
  also have "\<dots> = a * 3 ^ Suc m + int (n mod 3 ^ Suc m)"
    by (simp add: d algebra_simps)
  finally show ?case .
qed

lemma length_generateAll_config: "i < 19683 \<Longrightarrow> length (generateAll_config i) = 9"
  by (simp add: generateAll_config_digits)

lemma new_TicTacToeState_generateAll_config:
  "i < 19683 \<Longrightarrow> new_TicTacToeState (generateAll_config i) = Inr (mk_state i)"
  by (simp add: new_TicTacToeState_def length_generateAll_config mk_state_def)

lemma generateAll_loop_allStates:
  assumes "\<forall>i \<in> set is. i < 19683"
  shows "\<exists>g'. generateAll_loop is g = Inr g' \<and> allStates g' = allStates g @ map mk_state is"
  using assms
proof (induction "is" arbitrary: g)
  case Nil
  then show ?case by simp
next
  case (Cons i rest)
  let ?g = "g \<lparr> allStates := allStates g @ [mk_state i],
                 canonicalMap :=
                   (if map_of (canonicalMap g) (canonical (mk_state i)) = None
                    then AList.update (canonical (mk_state i)) (mk_state i) (canonicalMap g)
                    else canonicalMap g) \<rparr>"
  from Cons.prems have i: "i < 19683" and rest: "\<forall>i \<in> set rest. i < 19683" by simp_all
  from Cons.IH [OF rest, of ?g] obtain g' where
    "generateAll_loop rest ?g = Inr g'" "allStates g' = allStates ?g @ map mk_state rest"
    by blast
  then show ?case
    by (simp add: new_TicTacToeState_generateAll_config [OF i])
qed

lemma id_field_mk_state:
  assumes "i < 19683"
  shows "id_field (mk_state i) = map (\<lambda>k. digit_char (base3_digit 9 i k)) [0 ..< 9]"
proof -
  have "join (map int (map (base3_digit 9 i) [0 ..< 9])) = map digit_char (map (base3_digit 9 i) [0 ..< 9])"
    by (rule join_digits) (simp add: base3_digit_lt3)
  then have "join (generateAll_config i) = map (\<lambda>k. digit_char (base3_digit 9 i k)) [0 ..< 9]"
    by (simp only: generateAll_config_digits [OF assms] map_map comp_def)
  then show ?thesis by (simp add: mk_state_def analyze_def Let_def)
qed

lemma decimalId_mk_state:
  assumes "i < 19683"
  shows "decimalId (mk_state i) = Some (int i)"
proof -
  have "parseInt3 (map digit_char (map (base3_digit 9 i) [0 ..< 9])) =
      Some (foldl (\<lambda>acc d. 3 * acc + int d) 0 (map (base3_digit 9 i) [0 ..< 9]))"
    by (rule parseInt3_digits) (simp_all add: base3_digit_lt3)
  also have "\<dots> = Some (int (i mod 3 ^ 9))"
    by (simp only: foldl_base3_digits) simp
  also have "\<dots> = Some (int i)" using assms by simp
  finally have "parseInt3 (id_field (mk_state i)) = Some (int i)"
    by (simp only: id_field_mk_state [OF assms] map_map comp_def)
  then show ?thesis by (simp add: mk_state_def analyze_def Let_def)
qed

lemma config_mk_state: "config (mk_state i) = generateAll_config i"
  by (simp add: mk_state_def analyze_def Let_def)

text \<open>
  C4. \<open>generateAll\<close> returns exactly 19683 Board States in base-3 counting order: the
  state at index \<open>i\<close> has \<open>decimalId = i\<close>, its \<open>id\<close> is the 9-digit base-3 representation
  of \<open>i\<close> (digit \<open>k\<close> is \<open>(i div 3 ^ (8 - k)) mod 3\<close>, so short numbers are padded with
  \<open>0\<close> on the left), splitting the \<open>id\<close> into digits gives back the configuration, and
  \<open>getStateById\<close> on that \<open>id\<close> returns this very state.
\<close>

theorem generateAll_base3_order:
  "\<exists>g'. generateAll g = Inr g' \<and> length (allStates g') = 19683 \<and>
     (\<forall>i < 19683.
        decimalId (allStates g' ! i) = Some (int i) \<and>
        id_field (allStates g' ! i) = map (\<lambda>k. digit_char (base3_digit 9 i k)) [0 ..< 9] \<and>
        map Number_char (id_field (allStates g' ! i)) = config (allStates g' ! i) \<and>
        getStateById g' (id_field (allStates g' ! i)) = Some (allStates g' ! i))"
proof -
  from generateAll_loop_allStates [of "[0 ..< 19683]" "g \<lparr> allStates := [] \<rparr>"]
  obtain g' where g': "generateAll g = Inr g'" "allStates g' = map mk_state [0 ..< 19683]"
    by (auto simp: generateAll_def)
  have len: "length (allStates g') = 19683" by (simp add: g'(2))
  have "decimalId (allStates g' ! i) = Some (int i) \<and>
        id_field (allStates g' ! i) = map (\<lambda>k. digit_char (base3_digit 9 i k)) [0 ..< 9] \<and>
        map Number_char (id_field (allStates g' ! i)) = config (allStates g' ! i) \<and>
        getStateById g' (id_field (allStates g' ! i)) = Some (allStates g' ! i)"
    if i: "i < 19683" for i
  proof -
    have nth: "allStates g' ! i = mk_state i" using i by (simp add: g'(2))
    have d: "decimalId (mk_state i) = Some (int i)" by (rule decimalId_mk_state [OF i])
    have idf: "id_field (mk_state i) = map (\<lambda>k. digit_char (base3_digit 9 i k)) [0 ..< 9]"
      by (rule id_field_mk_state [OF i])
    have p: "parseInt3 (id_field (mk_state i)) = Some (int i)"
      using d by (simp add: mk_state_def analyze_def Let_def)
    have rt: "map Number_char (id_field (mk_state i)) = config (mk_state i)"
      by (simp only: idf config_mk_state generateAll_config_digits [OF i] map_map comp_def
            Number_char_digit_char [OF base3_digit_lt3])
    have "getStateById g' (id_field (mk_state i)) = Some (mk_state i)"
      using i by (simp add: getStateById_def p len nth)
    with d idf rt show ?thesis by (simp only: nth)
  qed
  with g'(1) len show ?thesis by blast
qed


theorem generateAll_base3_order_witness:
  "\<exists>g'. generateAll new_StateGenerator = Inr g' \<and> length (allStates g') = 19683 \<and>
     decimalId (allStates g' ! 5) = Some 5 \<and>
     id_field (allStates g' ! 5) = ''000000012'' \<and>
     config (allStates g' ! 5) = [0, 0, 0, 0, 0, 0, 0, 1, 2] \<and>
     getStateById g' ''000000012'' = Some (allStates g' ! 5)"
proof -
  from generateAll_base3_order [of new_StateGenerator] obtain g' where
    g: "generateAll new_StateGenerator = Inr g'" "length (allStates g') = 19683"
    and a: "\<forall>i < 19683.
        decimalId (allStates g' ! i) = Some (int i) \<and>
        id_field (allStates g' ! i) = map (\<lambda>k. digit_char (base3_digit 9 i k)) [0 ..< 9] \<and>
        map Number_char (id_field (allStates g' ! i)) = config (allStates g' ! i) \<and>
        getStateById g' (id_field (allStates g' ! i)) = Some (allStates g' ! i)"
    by blast
  have ds: "map (\<lambda>k. digit_char (base3_digit 9 5 k)) [0 ..< 9] = ''000000012''"
    by (simp add: upt_conv_Cons base3_digit_def digit_char_def)
  have "decimalId (allStates g' ! 5) = Some (int 5) \<and>
        id_field (allStates g' ! 5) = map (\<lambda>k. digit_char (base3_digit 9 5 k)) [0 ..< 9] \<and>
        map Number_char (id_field (allStates g' ! 5)) = config (allStates g' ! 5) \<and>
        getStateById g' (id_field (allStates g' ! 5)) = Some (allStates g' ! 5)"
    by (rule a [rule_format]) simp
  then have "decimalId (allStates g' ! 5) = Some 5 \<and>
     id_field (allStates g' ! 5) = ''000000012'' \<and>
     config (allStates g' ! 5) = [0, 0, 0, 0, 0, 0, 0, 1, 2] \<and>
     getStateById g' ''000000012'' = Some (allStates g' ! 5)"
    unfolding ds by (auto simp: Number_char_def)
  with g show ?thesis by blast
qed

section \<open>makeMove\<close>

lemma new_TicTacToeState_state_of:
  "new_TicTacToeState c = Inr st \<longleftrightarrow> length c = 9 \<and> st = state_of c"
  by (auto simp: new_TicTacToeState_def state_of_def)

lemma state_of_fields:
  "config (state_of c) = c"
  "id_field (state_of c) = join c"
  "canonical (state_of c) = getCanonicalForm c"
  "count0 (state_of c) = count_list c 0"
  "count1 (state_of c) = count_list c 1"
  "count2 (state_of c) = count_list c 2"
  "turnCount (state_of c) = count_list c 1 + count_list c 2"
  "winners (state_of c) = wi_winners (calculateWinners c)"
  "hasWinner (state_of c) = wi_hasWinner (calculateWinners c)"
  "isValid (state_of c) = checkValid (count_list c 0) (count_list c 1) (count_list c 2)"
  "isValidFirstPlayerX (state_of c) =
     checkValidFirstPlayerX (count_list c 0) (count_list c 1) (count_list c 2) (calculateWinners c)"
  "isTerminal (state_of c) \<longleftrightarrow>
     isValid (state_of c) \<and> (wi_hasWinner (calculateWinners c) \<or> count_list c 0 = 0)"
  "nextPlayer (state_of c) =
     (if \<not> isValid (state_of c) then Null
      else if count_list c 1 = count_list c 2 then Undefined
      else if count_list c 1 > count_list c 2 then Player 2 else Player 1)"
  "nextPlayerFirstPlayerX (state_of c) =
     (if \<not> isValidFirstPlayerX (state_of c) then Null
      else if count_list c 1 = count_list c 2 then Player 1 else Player 2)"
  by (simp_all add: state_of_def analyze_def Let_def length_filter_eq_count_list)

lemma or_1_nextPlayer_state_of:
  "or_1 (nextPlayer (state_of c)) = (if isValid (state_of c) \<and> count_list c 1 > count_list c 2 then 2 else 1)"
  by (simp add: state_of_fields(13) or_1_def)

lemma makeMove_state_of:
  assumes "length c = 9"
  shows "makeMove (state_of c) position =
    (if \<not> isValid (state_of c) \<or> isTerminal (state_of c) then Inl MoveStateError
     else if \<not> (0 \<le> position \<and> position < 9 \<and> c ! nat position = 0) then Inl OccupiedError
     else Inr (state_of (c [nat position := (if count_list c 1 > count_list c 2 then 2 else 1)])))"
  using assms
  by (auto simp: makeMove_def Let_def state_of_fields(1) or_1_nextPlayer_state_of array_get_def
        new_TicTacToeState_def state_of_def [symmetric])


lemma makeMove_store_refines:
  assumes "config_ref this < length s" and "s ! config_ref this = config (cached this)"
    and "length (config (cached this)) = 9"
  shows "makeMove_store s this position =
    (case makeMove (cached this) position of
       Inl e \<Rightarrow> (s, Inl e)
     | Inr st' \<Rightarrow> (s @ [config st'], Inr \<lparr> config_ref = length s, cached = st' \<rparr>))"
proof -
  let ?st = "cached this"
  let ?new = "(config ?st) [nat position := or_1 (nextPlayer ?st)]"
  show ?thesis
  proof (cases "\<not> isValid ?st \<or> isTerminal ?st")
    case True
    then show ?thesis by (simp add: makeMove_store_def makeMove_def)
  next
    case ok: False
    show ?thesis
    proof (cases "array_get (config ?st) position \<noteq> Some 0")
      case True
      with ok show ?thesis by (simp add: makeMove_store_def makeMove_def assms(2))
    next
      case False
      have upd: "(s @ [config ?st]) [length s := ?new] = s @ [?new]"
        by (simp add: list_update_append)
      have m: "makeMove ?st position = new_TicTacToeState ?new"
        using ok False by (simp add: makeMove_def Let_def)
      have ms: "makeMove_store s this position =
          (s @ [?new], case new_TicTacToeState ?new of
                    Inl e \<Rightarrow> Inl e
                  | Inr st \<Rightarrow> Inr \<lparr> config_ref = length s, cached = st \<rparr>)"
        using ok False by (simp add: makeMove_store_def Let_def assms(2) upd)
      have n: "new_TicTacToeState ?new = Inr (state_of ?new)"
        using assms(3) by (simp add: new_TicTacToeState_state_of)
      show ?thesis by (simp add: ms m n state_of_fields(1))
    qed
  qed
qed

text \<open>
  C6. \<open>makeMove\<close> on a constructed state raises exactly when the state is invalid (lax)
  or terminal, or \<open>position\<close> is not the index of an empty cell. Otherwise it returns the
  Board State of the source configuration with \<open>position\<close> set to \<open>nextPlayer\<close>, or to
  player 1 when \<open>nextPlayer\<close> is undefined (equal counts); every other cell is unchanged.
  On the store, the call leaves every array allocated before it as it was, the array of
  the source state among them, and the new state has a fresh array of its own.
\<close>

theorem makeMove_spec:
  assumes "new_TicTacToeState c = Inr st"
    and "config_ref this < length s" and "s ! config_ref this = c" and "cached this = st"
  shows "(isl (makeMove st position) \<longleftrightarrow>
            \<not> isValid st \<or> isTerminal st \<or>
            \<not> (0 \<le> position \<and> position < 9 \<and> c ! nat position = 0)) \<and>
         (\<not> isl (makeMove st position) \<longrightarrow>
            (\<exists>st' v. makeMove st position = Inr st' \<and>
               new_TicTacToeState (c [nat position := v]) = Inr st' \<and>
               config st' = c [nat position := v] \<and>
               config st' ! nat position = v \<and>
               (\<forall>k < 9. k \<noteq> nat position \<longrightarrow> config st' ! k = c ! k) \<and>
               (nextPlayer st = Undefined \<and> count1 st = count2 st \<and> v = 1 \<or>
                nextPlayer st = Player v \<and> count1 st \<noteq> count2 st) \<and>
               makeMove_store s this position =
                 (s @ [config st'], Inr \<lparr> config_ref = length s, cached = st' \<rparr>))) \<and>
         take (length s) (fst (makeMove_store s this position)) = s \<and>
         fst (makeMove_store s this position) ! config_ref this = c \<and>
         (isl (makeMove st position) \<longrightarrow>
            makeMove_store s this position = (s, Inl (projl (makeMove st position))))"
proof -
  from assms(1) have len: "length c = 9" and st: "st = state_of c"
    by (simp_all add: new_TicTacToeState_state_of)
  have cfg: "config st = c" by (simp add: st state_of_fields)
  let ?v = "if count_list c 1 > count_list c 2 then 2 else 1 :: int"
  let ?ok = "0 \<le> position \<and> position < 9 \<and> c ! nat position = 0"
  have mm: "makeMove st position =
    (if \<not> isValid st \<or> isTerminal st then Inl MoveStateError
     else if \<not> ?ok then Inl OccupiedError
     else Inr (state_of (c [nat position := ?v])))"
    unfolding st by (rule makeMove_state_of [OF len])
  have store: "makeMove_store s this position =
    (case makeMove st position of
       Inl e \<Rightarrow> (s, Inl e)
     | Inr st' \<Rightarrow> (s @ [config st'], Inr \<lparr> config_ref = length s, cached = st' \<rparr>))"
    using makeMove_store_refines [of this s position] assms(2,3,4) cfg len by simp
  have raise: "isl (makeMove st position) \<longleftrightarrow> \<not> isValid st \<or> isTerminal st \<or> \<not> ?ok"
    by (simp add: mm)
  have unchanged: "take (length s) (fst (makeMove_store s this position)) = s"
    by (simp add: store split: sum.splits)
  have src: "fst (makeMove_store s this position) ! config_ref this = c"
    using assms(2,3) by (simp add: store nth_append split: sum.splits)
  have err: "makeMove_store s this position = (s, Inl (projl (makeMove st position)))"
    if "isl (makeMove st position)"
    using that by (cases "makeMove st position") (simp_all add: store)
  have ok: "\<exists>st' v. makeMove st position = Inr st' \<and>
               new_TicTacToeState (c [nat position := v]) = Inr st' \<and>
               config st' = c [nat position := v] \<and>
               config st' ! nat position = v \<and>
               (\<forall>k < 9. k \<noteq> nat position \<longrightarrow> config st' ! k = c ! k) \<and>
               (nextPlayer st = Undefined \<and> count1 st = count2 st \<and> v = 1 \<or>
                nextPlayer st = Player v \<and> count1 st \<noteq> count2 st) \<and>
               makeMove_store s this position =
                 (s @ [config st'], Inr \<lparr> config_ref = length s, cached = st' \<rparr>)"
    if "\<not> isl (makeMove st position)"
  proof -
    let ?st' = "state_of (c [nat position := ?v])"
    from that raise have valid: "isValid st" and nt: "\<not> isTerminal st" and pos: ?ok by auto
    then have m: "makeMove st position = Inr ?st'" by (simp add: mm)
    have n: "new_TicTacToeState (c [nat position := ?v]) = Inr ?st'"
      by (simp add: new_TicTacToeState_state_of len)
    have c': "config ?st' = c [nat position := ?v]" by (simp add: state_of_fields)
    from pos len have "nat position < length c" by auto
    then have at: "config ?st' ! nat position = ?v"
      by (simp add: c')
    have others: "\<forall>k < 9. k \<noteq> nat position \<longrightarrow> config ?st' ! k = c ! k"
      by (simp add: c')
    have np: "nextPlayer st = Undefined \<and> count1 st = count2 st \<and> ?v = 1 \<or>
        nextPlayer st = Player ?v \<and> count1 st \<noteq> count2 st"
    proof -
      from valid have "\<bar>int (count_list c 1) - int (count_list c 2)\<bar> \<le> 1"
        by (simp add: st state_of_fields checkValid_def Let_def split: if_splits)
      with valid show ?thesis
        by (auto simp: st state_of_fields(5,6,13))
    qed
    have sm: "makeMove_store s this position =
        (s @ [config ?st'], Inr \<lparr> config_ref = length s, cached = ?st' \<rparr>)"
      by (simp add: store m)
    from m n c' at others np sm show ?thesis by blast
  qed
  from raise ok unchanged src err show ?thesis by blast
qed

theorem makeMove_spec_witness:
  "new_TicTacToeState [0, 0, 0, 0, 0, 0, 0, 0, 0] = Inr (state_of [0, 0, 0, 0, 0, 0, 0, 0, 0]) \<and>
   \<not> isl (makeMove (state_of [0, 0, 0, 0, 0, 0, 0, 0, 0]) 4) \<and>
   isl (makeMove (state_of [0, 0, 0, 0, 0, 0, 0, 0, 0]) 9) \<and>
   take 1 (fst (makeMove_store [[0, 0, 0, 0, 0, 0, 0, 0, 0]]
     \<lparr> config_ref = 0, cached = state_of [0, 0, 0, 0, 0, 0, 0, 0, 0] \<rparr> 4))
     = [[0, 0, 0, 0, 0, 0, 0, 0, 0]]"
proof -
  let ?c = "[0, 0, 0, 0, 0, 0, 0, 0, 0] :: config"
  let ?obj = "\<lparr> config_ref = 0, cached = state_of ?c \<rparr>"
  have n: "new_TicTacToeState ?c = Inr (state_of ?c)"
    by (simp add: new_TicTacToeState_state_of)
  have v: "isValid (state_of ?c)" and t: "\<not> isTerminal (state_of ?c)"
    by (simp_all add: state_of_fields checkValid_def calculateWinners_def winners_step_def
          winningLines_table_def)
  from makeMove_spec [OF n, of ?obj "[?c]" 4] makeMove_spec [OF n, of ?obj "[?c]" 9] n v t
  show ?thesis by simp
qed

section \<open>Canonical representatives among the well-formed configurations\<close>

lemma cell_cases: "v \<in> {0, 1, 2 :: int} \<Longrightarrow> v = 0 \<or> v = 1 \<or> v = 2"
  by auto

lemma String_of_int_cell:
  "String_of_int 0 = ''0''" "String_of_int 1 = ''1''" "String_of_int 2 = ''2''"
  by (simp_all add: String_of_int_def toString10.simps digit_char_def)

lemma join_Nil: "join [] = []"
  by (simp add: join_def)

lemma join_Cons_cell:
  assumes "x \<in> {0, 1, 2}"
  shows "join (x # xs) = hd (String_of_int x) # join xs \<and> length (String_of_int x) = 1"
  using cell_cases [OF assms] by (auto simp: join_def String_of_int_cell)

lemma String_of_int_cell_less:
  assumes "x \<in> {0, 1, 2}" and "y \<in> {0, 1, 2}"
  shows "hd (String_of_int x) < hd (String_of_int y) \<longleftrightarrow> x < y"
    and "hd (String_of_int x) = hd (String_of_int y) \<longleftrightarrow> x = y"
  using cell_cases [OF assms(1)] cell_cases [OF assms(2)]
  by (auto simp: String_of_int_cell)

lemma join_le_iff_lex_le:
  assumes "set c \<subseteq> {0, 1, 2}" and "set c' \<subseteq> {0, 1, 2}"
  shows "join c \<le> join c' \<longleftrightarrow> lex_le c c'"
  using assms
proof (induction c c' rule: lex_le.induct)
  case (1 ys)
  then show ?case by (simp add: join_def)
next
  case (2 x xs)
  then have "x \<in> {0, 1, 2}" by simp
  from join_Cons_cell [OF this, of xs] have "join (x # xs) = hd (String_of_int x) # join xs"
    by simp
  then show ?case by (simp add: join_Nil)
next
  case (3 x xs y ys)
  then have x: "x \<in> {0, 1, 2}" and y: "y \<in> {0, 1, 2}"
    and xs: "set xs \<subseteq> {0, 1, 2}" and ys: "set ys \<subseteq> {0, 1, 2}" by simp_all
  have jx: "join (x # xs) = hd (String_of_int x) # join xs"
    and jy: "join (y # ys) = hd (String_of_int y) # join ys"
    using join_Cons_cell [OF x] join_Cons_cell [OF y] by simp_all
  show ?case
  proof (cases "x < y")
    case True
    then show ?thesis
      unfolding jx jy by (simp add: String_of_int_cell_less [OF x y])
  next
    case nlt: False
    show ?thesis
    proof (cases "y < x")
      case True
      then show ?thesis
        unfolding jx jy using String_of_int_cell_less [OF x y] by auto
    next
      case False
      with nlt have "x = y" by simp
      with "3.IH" [OF nlt False xs ys] show ?thesis
        unfolding jx jy by simp
    qed
  qed
qed

lemma join_inj:
  assumes "set c \<subseteq> {0, 1, 2}" and "set c' \<subseteq> {0, 1, 2}" and "join c = join c'"
  shows "c = c'"
  using assms
proof (induction c arbitrary: c')
  case Nil
  show ?case
  proof (cases c')
    case Nil then show ?thesis by simp
  next
    case (Cons y ys)
    with Nil.prems have "y \<in> {0, 1, 2}" by simp
    from join_Cons_cell [OF this, of ys] Nil.prems(3) Cons show ?thesis by (simp add: join_Nil)
  qed
next
  case (Cons x xs)
  then have x: "x \<in> {0, 1, 2}" and xs: "set xs \<subseteq> {0, 1, 2}" by simp_all
  show ?case
  proof (cases c')
    case Nil
    with join_Cons_cell [OF x, of xs] Cons.prems(3) show ?thesis by (simp add: join_Nil)
  next
    case c': (Cons y ys)
    with Cons.prems have y: "y \<in> {0, 1, 2}" and ys: "set ys \<subseteq> {0, 1, 2}" by simp_all
    from Cons.prems(3) join_Cons_cell [OF x, of xs] join_Cons_cell [OF y, of ys]
    have "hd (String_of_int x) = hd (String_of_int y)" and "join xs = join ys"
      by (simp_all add: c')
    with String_of_int_cell_less(2) [OF x y] Cons.IH [OF xs ys] show ?thesis
      by (simp add: c')
  qed
qed


lemma getAllSymmetries_explicit:
  "getAllSymmetries [x0, x1, x2, x3, x4, x5, x6, x7, x8] =
     [[x0, x1, x2, x3, x4, x5, x6, x7, x8],
      [x6, x3, x0, x7, x4, x1, x8, x5, x2],
      [x8, x7, x6, x5, x4, x3, x2, x1, x0],
      [x2, x5, x8, x1, x4, x7, x0, x3, x6],
      [x6, x7, x8, x3, x4, x5, x0, x1, x2],
      [x2, x1, x0, x5, x4, x3, x8, x7, x6],
      [x0, x3, x6, x1, x4, x7, x2, x5, x8],
      [x8, x5, x2, x7, x4, x1, x6, x3, x0]]"
  by (simp add: getAllSymmetries_def transform_defs)

lemma getAllSymmetries_transforms:
  "getAllSymmetries c = map (\<lambda>t. t c) symmetry_transforms"
  by (simp add: getAllSymmetries_def symmetry_transforms_def)

lemma transform_Cfg:
  assumes "c \<in> Cfg" and "s \<in> set (getAllSymmetries c)"
  shows "s \<in> Cfg"
proof -
  from assms(1) have l: "length c = 9" and d: "set c \<subseteq> {0, 1, 2}" by (simp_all add: Cfg_def)
  from l obtain x0 x1 x2 x3 x4 x5 x6 x7 x8
    where c: "c = [x0, x1, x2, x3, x4, x5, x6, x7, x8]" by (rule length9_cases)
  from assms(2) have "set s \<subseteq> set c \<and> length s = 9"
    unfolding c getAllSymmetries_explicit by auto
  with d show ?thesis by (auto simp: Cfg_def)
qed

lemma getCanonicalForm_eq_join_iff:
  assumes "c \<in> Cfg"
  shows "getCanonicalForm c = join c \<longleftrightarrow> (\<forall>s \<in> set (getAllSymmetries c). lex_le c s)"
proof -
  have c: "set c \<subseteq> {0, 1, 2}" using assms by (simp add: Cfg_def)
  have mem: "join c \<in> join ` set (getAllSymmetries c)"
    by (simp add: getAllSymmetries_def)
  have "getCanonicalForm c = join c \<longleftrightarrow>
      (\<forall>a \<in> join ` set (getAllSymmetries c). join c \<le> a)"
    unfolding getCanonicalForm_Min using mem
    by (subst Min_eq_iff) auto
  also have "\<dots> \<longleftrightarrow> (\<forall>s \<in> set (getAllSymmetries c). join c \<le> join s)" by auto
  also have "\<dots> \<longleftrightarrow> (\<forall>s \<in> set (getAllSymmetries c). lex_le c s)"
  proof (rule ball_cong [OF refl])
    fix s assume "s \<in> set (getAllSymmetries c)"
    from transform_Cfg [OF assms this] have "set s \<subseteq> {0, 1, 2}" by (simp add: Cfg_def)
    from join_le_iff_lex_le [OF c this] show "join c \<le> join s \<longleftrightarrow> lex_le c s" .
  qed
  finally show ?thesis .
qed

lemma lex_le_refl: "lex_le c c"
  by (induction c) auto

lemma if_False_conj: "(if A then B else False) \<longleftrightarrow> A \<and> B"
  by simp

lemma canon9_correct:
  assumes "c \<in> Cfg"
  shows "canon9 c \<longleftrightarrow> getCanonicalForm c = join c"
proof -
  from assms have l: "length c = 9" by (simp add: Cfg_def)
  from l obtain x0 x1 x2 x3 x4 x5 x6 x7 x8
    where c: "c = [x0, x1, x2, x3, x4, x5, x6, x7, x8]" by (rule length9_cases)
  have "(\<forall>s \<in> set (getAllSymmetries c). lex_le c s) \<longleftrightarrow> canon9 c"
    unfolding c getAllSymmetries_explicit canon9.simps
    by (simp only: list.set ball_simps lex_le_refl simp_thms if_False_conj)
  then show ?thesis by (simp add: getCanonicalForm_eq_join_iff [OF assms])
qed

lemma line9_correct:
  assumes "length c = 9"
  shows "line9 p c \<longleftrightarrow> has_winning_line c p"
proof -
  from assms obtain x0 x1 x2 x3 x4 x5 x6 x7 x8
    where c: "c = [x0, x1, x2, x3, x4, x5, x6, x7, x8]" by (rule length9_cases)
  show ?thesis
    unfolding c has_winning_line_def winningLines_table_def line9.simps line3_def
    by (simp only: list.set ball_simps bex_simps prod.case nth_Cons_0 nth_Cons_numeral
          nth_Cons_Suc numeral_eq_Suc pred_numeral_simps Num.BitM.simps One_nat_def) auto
qed

lemma finite_cells_lists: "finite {p :: int list. set p \<subseteq> {0, 1, 2} \<and> length p = k}"
  by (rule finite_lists_length_eq) simp

lemma count_list_snoc: "count_list (p @ [x]) y = count_list p y + (if x = y then 1 else 0)"
  by (induction p) auto

lemma count_canonical_card:
  "count_canonical k acc n1 n2 t =
     t + card {p. set p \<subseteq> {0, 1, 2} \<and> length p = k \<and>
                 leafP (p @ acc) (n1 + count_list p 1) (n2 + count_list p 2)}"
proof (induction k arbitrary: acc n1 n2 t)
  case 0
  have "{p :: int list. set p \<subseteq> {0, 1, 2} \<and> length p = 0 \<and>
         leafP (p @ acc) (n1 + count_list p 1) (n2 + count_list p 2)} =
      (if leafP acc n1 n2 then {[]} else {})"
    by auto
  then show ?case by simp
next
  case (Suc k)
  let ?A = "\<lambda>x m1 m2. {p. set p \<subseteq> {0, 1, 2} \<and> length p = k \<and>
                 leafP (p @ (x # acc)) (m1 + count_list p 1) (m2 + count_list p 2)}"
  let ?B = "{q. set q \<subseteq> {0, 1, 2} \<and> length q = Suc k \<and>
                 leafP (q @ acc) (n1 + count_list q 1) (n2 + count_list q 2)}"
  let ?f = "\<lambda>x p. p @ [x :: int]"
  have fin: "finite (?A x m1 m2)" for x m1 m2
    by (rule finite_subset [OF _ finite_cells_lists [of k]]) auto
  have B: "?B = ?f 0 ` ?A 0 n1 n2 \<union> (?f 1 ` ?A 1 (Suc n1) n2 \<union> ?f 2 ` ?A 2 n1 (Suc n2))"
    (is "_ = ?R")
  proof (rule set_eqI)
    fix q :: "int list"
    show "q \<in> ?B \<longleftrightarrow> q \<in> ?R"
    proof
      assume q: "q \<in> ?B"
      then have "length q = Suc k" by simp
      then obtain x p where qp: "q = p @ [x]" and lp: "length p = k"
        by (auto simp: length_Suc_conv_rev)
      from q qp have x: "x = 0 \<or> x = 1 \<or> x = 2" and sp: "set p \<subseteq> {0, 1, 2}" by auto
      from q have leaf: "leafP (p @ (x # acc)) (n1 + count_list (p @ [x]) 1)
          (n2 + count_list (p @ [x]) 2)"
        by (simp add: qp)
      from x show "q \<in> ?R"
      proof (elim disjE)
        assume "x = 0"
        with leaf sp lp have "p \<in> ?A 0 n1 n2" by (simp add: count_list_snoc)
        then show ?thesis unfolding qp \<open>x = 0\<close> by blast
      next
        assume "x = 1"
        with leaf sp lp have "p \<in> ?A 1 (Suc n1) n2" by (simp add: count_list_snoc)
        then show ?thesis unfolding qp \<open>x = 1\<close> by blast
      next
        assume "x = 2"
        with leaf sp lp have "p \<in> ?A 2 n1 (Suc n2)" by (simp add: count_list_snoc)
        then show ?thesis unfolding qp \<open>x = 2\<close> by blast
      qed
    next
      assume "q \<in> ?R"
      then consider p where "q = p @ [0]" "p \<in> ?A 0 n1 n2"
        | p where "q = p @ [1]" "p \<in> ?A 1 (Suc n1) n2"
        | p where "q = p @ [2]" "p \<in> ?A 2 n1 (Suc n2)"
        by blast
      then show "q \<in> ?B"
        by cases (simp_all add: count_list_snoc)
    qed
  qed
  have inj: "inj_on (?f x) S" for x S by (simp add: inj_on_def)
  have disj: "?f 0 ` ?A 0 n1 n2 \<inter> (?f 1 ` ?A 1 (Suc n1) n2 \<union> ?f 2 ` ?A 2 n1 (Suc n2)) = {}"
    "?f 1 ` ?A 1 (Suc n1) n2 \<inter> ?f 2 ` ?A 2 n1 (Suc n2) = {}"
    by auto
  have "card ?B = card (?A 0 n1 n2) + (card (?A 1 (Suc n1) n2) + card (?A 2 n1 (Suc n2)))"
  proof -
    have f0: "finite (?f 0 ` ?A 0 n1 n2)" and f1: "finite (?f 1 ` ?A 1 (Suc n1) n2)"
      and f2: "finite (?f 2 ` ?A 2 n1 (Suc n2))"
      by (rule finite_imageI [OF fin])+
    have "card ?B = card (?f 0 ` ?A 0 n1 n2) +
        card (?f 1 ` ?A 1 (Suc n1) n2 \<union> ?f 2 ` ?A 2 n1 (Suc n2))"
      unfolding B by (rule card_Un_disjoint [OF f0 _ disj(1)]) (rule finite_UnI [OF f1 f2])
    also have "card (?f 1 ` ?A 1 (Suc n1) n2 \<union> ?f 2 ` ?A 2 n1 (Suc n2)) =
        card (?f 1 ` ?A 1 (Suc n1) n2) + card (?f 2 ` ?A 2 n1 (Suc n2))"
      by (rule card_Un_disjoint [OF f1 f2 disj(2)])
    finally show ?thesis by (simp only: card_image [OF inj])
  qed
  then show ?case
    by (simp only: count_canonical.simps Suc.IH)
qed

lemma isValidFirstPlayerX_state_of:
  "isValidFirstPlayerX (state_of c) \<longleftrightarrow>
     (count_list c 1 = count_list c 2 \<or> count_list c 1 = count_list c 2 + 1) \<and>
     \<not> (has_winning_line c 1 \<and> has_winning_line c 2) \<and>
     (has_winning_line c 1 \<longrightarrow> count_list c 1 > count_list c 2) \<and>
     (has_winning_line c 2 \<longrightarrow> count_list c 1 = count_list c 2)"
  by (simp only: state_of_fields(11) checkValidFirstPlayerX_iff)

lemma count_list_sum_list:
  "count_list xs y = sum_list (map (\<lambda>x. if x = y then 1 else 0) xs)"
  by (induction xs) auto

lemma has_winning_line_explicit:
  "has_winning_line [x0, x1, x2, x3, x4, x5, x6, x7, x8] p \<longleftrightarrow>
     (x0 = p \<and> x1 = p \<and> x2 = p) \<or> (x3 = p \<and> x4 = p \<and> x5 = p) \<or>
     (x6 = p \<and> x7 = p \<and> x8 = p) \<or> (x0 = p \<and> x3 = p \<and> x6 = p) \<or>
     (x1 = p \<and> x4 = p \<and> x7 = p) \<or> (x2 = p \<and> x5 = p \<and> x8 = p) \<or>
     (x0 = p \<and> x4 = p \<and> x8 = p) \<or> (x2 = p \<and> x4 = p \<and> x6 = p)"
  by (simp add: has_winning_line_def winningLines_table_def)

lemma symmetry_preserves:
  assumes "length c = 9" and "s \<in> set (getAllSymmetries c)"
  shows "count_list s p = count_list c p" and "has_winning_line s p \<longleftrightarrow> has_winning_line c p"
proof -
  from assms(1) obtain x0 x1 x2 x3 x4 x5 x6 x7 x8
    where c: "c = [x0, x1, x2, x3, x4, x5, x6, x7, x8]" by (rule length9_cases)
  define g where "g x = (if x = p then 1 else 0 :: nat)" for x
  have cl: "count_list xs p = sum_list (map g xs)" for xs
    unfolding g_def by (rule count_list_sum_list)
  from assms(2) have mem:
      "s = [x0, x1, x2, x3, x4, x5, x6, x7, x8] \<or> s = [x6, x3, x0, x7, x4, x1, x8, x5, x2]
    \<or> s = [x8, x7, x6, x5, x4, x3, x2, x1, x0] \<or> s = [x2, x5, x8, x1, x4, x7, x0, x3, x6]
    \<or> s = [x6, x7, x8, x3, x4, x5, x0, x1, x2] \<or> s = [x2, x1, x0, x5, x4, x3, x8, x7, x6]
    \<or> s = [x0, x3, x6, x1, x4, x7, x2, x5, x8] \<or> s = [x8, x5, x2, x7, x4, x1, x6, x3, x0]"
    unfolding c getAllSymmetries_explicit
    by (simp only: list.set insert_iff empty_iff simp_thms)
  then show "count_list s p = count_list c p"
    by (elim disjE) (simp_all only: c cl list.map sum_list.Cons sum_list.Nil ac_simps)
  define b0 b1 b2 b3 b4 b5 b6 b7 b8 where b:
    "b0 = (x0 = p)" "b1 = (x1 = p)" "b2 = (x2 = p)" "b3 = (x3 = p)" "b4 = (x4 = p)"
    "b5 = (x5 = p)" "b6 = (x6 = p)" "b7 = (x7 = p)" "b8 = (x8 = p)"
  from mem show "has_winning_line s p \<longleftrightarrow> has_winning_line c p"
  proof (elim disjE)
    assume "s = [x0, x1, x2, x3, x4, x5, x6, x7, x8]"
    then show ?thesis by (simp only: c)
  next
    assume s: "s = [x6, x3, x0, x7, x4, x1, x8, x5, x2]"
    show ?thesis unfolding s c has_winning_line_explicit b [symmetric] by (simp only: conj_ac disj_ac)
  next
    assume s: "s = [x8, x7, x6, x5, x4, x3, x2, x1, x0]"
    show ?thesis unfolding s c has_winning_line_explicit b [symmetric] by (simp only: conj_ac disj_ac)
  next
    assume s: "s = [x2, x5, x8, x1, x4, x7, x0, x3, x6]"
    show ?thesis unfolding s c has_winning_line_explicit b [symmetric] by (simp only: conj_ac disj_ac)
  next
    assume s: "s = [x6, x7, x8, x3, x4, x5, x0, x1, x2]"
    show ?thesis unfolding s c has_winning_line_explicit b [symmetric] by (simp only: conj_ac disj_ac)
  next
    assume s: "s = [x2, x1, x0, x5, x4, x3, x8, x7, x6]"
    show ?thesis unfolding s c has_winning_line_explicit b [symmetric] by (simp only: conj_ac disj_ac)
  next
    assume s: "s = [x0, x3, x6, x1, x4, x7, x2, x5, x8]"
    show ?thesis unfolding s c has_winning_line_explicit b [symmetric] by (simp only: conj_ac disj_ac)
  next
    assume s: "s = [x8, x5, x2, x7, x4, x1, x6, x3, x0]"
    show ?thesis unfolding s c has_winning_line_explicit b [symmetric] by (simp only: conj_ac disj_ac)
  qed
qed

lemma symmetry_preserves_valid:
  assumes "length c = 9" and "s \<in> set (getAllSymmetries c)"
  shows "isValidFirstPlayerX (state_of s) \<longleftrightarrow> isValidFirstPlayerX (state_of c)"
  by (simp only: isValidFirstPlayerX_state_of symmetry_preserves [OF assms])

lemma leafP_correct:
  assumes "c \<in> Cfg"
  shows "leafP c (count_list c 1) (count_list c 2) \<longleftrightarrow>
    isValidFirstPlayerX (state_of c) \<and> getCanonicalForm c = join c"
proof -
  from assms have l: "length c = 9" by (simp add: Cfg_def)
  show ?thesis
    unfolding leafP_def isValidFirstPlayerX_state_of canon9_correct [OF assms]
      line9_correct [OF l]
    by auto
qed

lemma canonical_classes_card:
  "card (getCanonicalForm ` {c \<in> Cfg. isValidFirstPlayerX (state_of c)}) =
   card {c \<in> Cfg. isValidFirstPlayerX (state_of c) \<and> getCanonicalForm c = join c}"
proof -
  let ?V = "{c \<in> Cfg. isValidFirstPlayerX (state_of c)}"
  let ?R = "{c \<in> Cfg. isValidFirstPlayerX (state_of c) \<and> getCanonicalForm c = join c}"
  have "getCanonicalForm ` ?V = join ` ?R"
  proof (rule set_eqI, rule iffI)
    fix k assume "k \<in> getCanonicalForm ` ?V"
    then obtain c where c: "c \<in> Cfg" "isValidFirstPlayerX (state_of c)"
      and k: "k = getCanonicalForm c" by blast
    from c(1) have l: "length c = 9" by (simp add: Cfg_def)
    have "Min (join ` set (getAllSymmetries c)) \<in> join ` set (getAllSymmetries c)"
      by (rule Min_in) (simp_all add: getAllSymmetries_def)
    then obtain s where s: "s \<in> set (getAllSymmetries c)" and ks: "k = join s"
      unfolding k getCanonicalForm_Min by blast
    from s obtain t where t: "t \<in> set symmetry_transforms" "s = t c"
      by (auto simp: getAllSymmetries_transforms)
    have "getCanonicalForm s = getCanonicalForm c"
      unfolding getCanonicalForm_Min t(2) by (simp only: set_getAllSymmetries_transform [OF l t(1)])
    with k ks have "getCanonicalForm s = join s" by simp
    moreover have "s \<in> Cfg" by (rule transform_Cfg [OF c(1) s])
    moreover have "isValidFirstPlayerX (state_of s)"
      using symmetry_preserves_valid [OF l s] c(2) by simp
    ultimately show "k \<in> join ` ?R" using ks by blast
  next
    fix k assume "k \<in> join ` ?R"
    then obtain c where "c \<in> ?R" "k = join c" by blast
    then have "c \<in> ?V" "k = getCanonicalForm c" by simp_all
    then show "k \<in> getCanonicalForm ` ?V" by blast
  qed
  moreover have "inj_on join ?R"
    by (rule inj_onI) (auto simp: Cfg_def intro: join_inj)
  ultimately show ?thesis by (simp add: card_image)
qed

lemma canonical_valid_card:
  "card {c \<in> Cfg. isValidFirstPlayerX (state_of c) \<and> getCanonicalForm c = join c} =
     count_canonical 9 [] 0 0 0"
proof -
  have "{c \<in> Cfg. isValidFirstPlayerX (state_of c) \<and> getCanonicalForm c = join c} =
      {p. set p \<subseteq> {0, 1, 2} \<and> length p = 9 \<and>
          leafP (p @ []) (0 + count_list p 1) (0 + count_list p 2)}"
    using leafP_correct by (auto simp: Cfg_def)
  then show ?thesis by (simp only: count_canonical_card [of 9 "[]" 0 0 0] add_0)
qed

section \<open>The canonical index built by generateAll\<close>

lemma mk_state_state_of: "mk_state i = state_of (generateAll_config i)"
  by (simp add: mk_state_def state_of_def)

lemma generateAll_config_Cfg:
  assumes "i < 19683"
  shows "generateAll_config i \<in> Cfg"
proof -
  have "int (base3_digit 9 i k) \<in> {0, 1, 2}" for k
    using lt3_cases [OF base3_digit_lt3 [of 9 i k]] by auto
  then have "set (map (\<lambda>k. int (base3_digit 9 i k)) [0 ..< 9]) \<subseteq> {0, 1, 2}"
    unfolding set_map by (rule image_subsetI)
  then show ?thesis
    unfolding generateAll_config_digits [OF assms] Cfg_def by simp
qed

lemma generateAll_config_inj: "inj_on generateAll_config {..< 19683}"
proof (rule inj_onI)
  fix i j assume i: "i \<in> {..< 19683}" and j: "j \<in> {..< 19683}"
    and eq: "generateAll_config i = generateAll_config j"
  from eq have "decimalId (mk_state i) = decimalId (mk_state j)"
    by (simp add: mk_state_state_of)
  with i j show "i = j" by (simp add: decimalId_mk_state)
qed

lemma card_Cfg: "finite Cfg" "card Cfg = 19683"
proof -
  have f: "finite {0, 1, 2 :: int}" by simp
  show "finite Cfg" unfolding Cfg_def by (rule finite_lists_length_eq [OF f])
  have "card Cfg = card {0, 1, 2 :: int} ^ 9"
    unfolding Cfg_def by (rule card_lists_length_eq [OF f])
  moreover have "card {0, 1, 2 :: int} = 3" by simp
  ultimately have "card Cfg = 3 ^ 9" by (simp only:)
  then show "card Cfg = 19683" by simp
qed

lemma generateAll_config_image: "generateAll_config ` {..< 19683} = Cfg"
proof (rule card_subset_eq [OF card_Cfg(1)])
  show "generateAll_config ` {..< 19683} \<subseteq> Cfg"
    using generateAll_config_Cfg by auto
  show "card (generateAll_config ` {..< 19683}) = card Cfg"
    by (simp add: card_image [OF generateAll_config_inj] card_Cfg(2))
qed

lemma update_absent: "k \<notin> fst ` set al \<Longrightarrow> AList.update k v al = al @ [(k, v)]"
  by (induction al) auto

lemma generateAll_loop_result:
  assumes "\<forall>i \<in> set is. i < 19683"
  shows "\<exists>g'. generateAll_loop is g = Inr g' \<and>
    allStates g' = allStates g @ map mk_state is \<and>
    canonicalMap g' =
      foldl (\<lambda>cm st. if map_of cm (canonical st) = None
                      then AList.update (canonical st) st cm else cm)
        (canonicalMap g) (map mk_state is)"
  using assms
proof (induction "is" arbitrary: g)
  case Nil
  then show ?case by simp
next
  case (Cons i rest)
  let ?g = "g \<lparr> allStates := allStates g @ [mk_state i],
                 canonicalMap :=
                   (if map_of (canonicalMap g) (canonical (mk_state i)) = None
                    then AList.update (canonical (mk_state i)) (mk_state i) (canonicalMap g)
                    else canonicalMap g) \<rparr>"
  from Cons.prems have i: "i < 19683" and rest: "\<forall>i \<in> set rest. i < 19683" by simp_all
  from Cons.IH [OF rest, of ?g] obtain g' where
    "generateAll_loop rest ?g = Inr g'" "allStates g' = allStates ?g @ map mk_state rest"
    "canonicalMap g' =
      foldl (\<lambda>cm st. if map_of cm (canonical st) = None
                      then AList.update (canonical st) st cm else cm)
        (canonicalMap ?g) (map mk_state rest)"
    by blast
  then show ?case
    by (simp add: new_TicTacToeState_generateAll_config [OF i])
qed

lemma canonicalMap_fold:
  assumes "distinct (map fst cm)" and "\<forall>(k, st) \<in> set cm. canonical st = k"
  shows "distinct (map fst (foldl (\<lambda>cm st. if map_of cm (canonical st) = None
                      then AList.update (canonical st) st cm else cm) cm sts)) \<and>
    (\<forall>(k, st) \<in> set (foldl (\<lambda>cm st. if map_of cm (canonical st) = None
                      then AList.update (canonical st) st cm else cm) cm sts). canonical st = k) \<and>
    fst ` set (foldl (\<lambda>cm st. if map_of cm (canonical st) = None
                      then AList.update (canonical st) st cm else cm) cm sts) =
      fst ` set cm \<union> canonical ` set sts"
  using assms
proof (induction sts arbitrary: cm)
  case Nil
  then show ?case by simp
next
  case (Cons st sts)
  let ?cm = "if map_of cm (canonical st) = None
             then AList.update (canonical st) st cm else cm"
  have d: "distinct (map fst ?cm)"
    using Cons.prems(1) by (simp add: distinct_update)
  have c: "\<forall>(k, st) \<in> set ?cm. canonical st = k"
    using Cons.prems(2) by (auto simp: update_absent map_of_eq_None_iff)
  have k: "fst ` set ?cm = insert (canonical st) (fst ` set cm)"
    by (auto simp: dom_update map_of_eq_None_iff)
  from Cons.IH [OF d c] show ?case
    unfolding foldl_Cons k by auto
qed

lemma list_ex_canonical:
  "list_ex (\<lambda>s. canonical s = k) sts \<longleftrightarrow> k \<in> canonical ` set sts"
  by (auto simp: list_ex_iff)

lemma length_getCanonicalValidStatesFirstPlayerX:
  assumes "distinct (map fst (canonicalMap g))"
    and "\<forall>(k, st) \<in> set (canonicalMap g). canonical st = k"
    and "fst ` set (canonicalMap g) = canonical ` set (allStates g)"
  shows "length (getCanonicalValidStatesFirstPlayerX g) =
    card (canonical ` {st \<in> set (allStates g). isValidFirstPlayerX st})"
proof -
  let ?K = "canonical ` {st \<in> set (allStates g). isValidFirstPlayerX st}"
  let ?cm = "canonicalMap g"
  have valid: "set (getValidStatesFirstPlayerX g) = {st \<in> set (allStates g). isValidFirstPlayerX st}"
    by (simp add: getValidStatesFirstPlayerX_def filterByProperty_def)
  have "length (getCanonicalValidStatesFirstPlayerX g) =
      length (filter ((\<lambda>state. canonical state \<in> ?K) \<circ> snd) ?cm)"
    by (simp add: getCanonicalValidStatesFirstPlayerX_def list_ex_canonical valid filter_map)
  also have "filter ((\<lambda>state. canonical state \<in> ?K) \<circ> snd) ?cm =
      filter ((\<lambda>k. k \<in> ?K) \<circ> fst) ?cm"
    by (rule filter_cong [OF refl]) (use assms(2) in auto)
  also have "length \<dots> = length (filter (\<lambda>k. k \<in> ?K) (map fst ?cm))"
    by (simp add: filter_map)
  also have "\<dots> = card ({k. k \<in> ?K} \<inter> set (map fst ?cm))"
    by (rule distinct_length_filter [OF assms(1)])
  also have "{k. k \<in> ?K} \<inter> set (map fst ?cm) = ?K"
    using assms(3) by auto
  finally show ?thesis .
qed

lemma Collect_image_eq: "{y \<in> f ` A. P y} = f ` {x \<in> A. P (f x)}"
  by auto

lemma count_canonical_765: "count_canonical 9 [] 0 0 0 = 765"
  by code_simp

lemma generateAll_canonical_valid:
  "\<exists>g. generateAll new_StateGenerator = Inr g \<and>
     length (getCanonicalValidStatesFirstPlayerX g) = 765 \<and>
     card (canonical ` {st \<in> set (allStates g). isValidFirstPlayerX st}) = 765"
proof -
  let ?ins = "\<lambda>cm st. if map_of cm (canonical st) = None
                      then AList.update (canonical st) st cm else cm"
  define sts where "sts = map mk_state [0 ..< 19683]"
  from generateAll_loop_result [of "[0 ..< 19683]" "new_StateGenerator \<lparr> allStates := [] \<rparr>"]
  obtain g where g: "generateAll new_StateGenerator = Inr g"
    and a: "allStates g = sts"
    and m: "canonicalMap g = foldl ?ins [] sts"
    unfolding sts_def by (auto simp: generateAll_def new_StateGenerator_def)
  have cm: "distinct (map fst (canonicalMap g))"
    "\<forall>(k, st) \<in> set (canonicalMap g). canonical st = k"
    "fst ` set (canonicalMap g) = canonical ` set (allStates g)"
    using canonicalMap_fold [of "[]" sts] unfolding m a by simp_all
  have "set sts = mk_state ` {..< 19683}"
    unfolding sts_def set_map by (simp only: atLeast_upt)
  also have "\<dots> = state_of ` generateAll_config ` {..< 19683}"
    unfolding image_image by (rule image_cong [OF refl]) (rule mk_state_state_of)
  finally have "set (allStates g) = state_of ` Cfg"
    by (simp only: a generateAll_config_image)
  then have "{st \<in> set (allStates g). isValidFirstPlayerX st} =
      state_of ` {c \<in> Cfg. isValidFirstPlayerX (state_of c)}"
    by (simp only: Collect_image_eq)
  then have "canonical ` {st \<in> set (allStates g). isValidFirstPlayerX st} =
      getCanonicalForm ` {c \<in> Cfg. isValidFirstPlayerX (state_of c)}"
    by (simp only: image_image state_of_fields(3))
  then have "card (canonical ` {st \<in> set (allStates g). isValidFirstPlayerX st}) = 765"
    by (simp only: canonical_classes_card canonical_valid_card count_canonical_765)
  with length_getCanonicalValidStatesFirstPlayerX [OF cm] g show ?thesis by auto
qed

text \<open>
  C2 (as amended). After \<open>generateAll\<close> on a fresh generator,
  \<open>getCanonicalValidStatesFirstPlayerX\<close> returns a sequence of length 765, which is the
  number of canonical forms of configurations with \<open>isValidFirstPlayerX\<close>.
\<close>

theorem canonical_valid_states_765:
  "\<exists>g. generateAll new_StateGenerator = Inr g \<and>
     length (getCanonicalValidStatesFirstPlayerX g) = 765 \<and>
     card (canonical ` {st \<in> set (allStates g). isValidFirstPlayerX st}) = 765"
  by (rule generateAll_canonical_valid)

text \<open>The count is not 756.\<close>

theorem canonical_valid_states_756_counterexample:
  "\<not> isl (generateAll new_StateGenerator) \<and>
   length (getCanonicalValidStatesFirstPlayerX (projr (generateAll new_StateGenerator))) \<noteq> 756"
proof -
  from generateAll_canonical_valid obtain g where
    "generateAll new_StateGenerator = Inr g" "length (getCanonicalValidStatesFirstPlayerX g) = 765"
    by blast
  then show ?thesis by simp
qed

section \<open>Moves between well-formed states\<close>

lemma count_list_update:
  assumes "i < length c"
  shows "count_list (c [i := v]) x + (if c ! i = x then 1 else 0) =
    count_list c x + (if v = x then 1 else 0)"
  using assms
proof (induction c arbitrary: i)
  case Nil
  then show ?case by simp
next
  case (Cons y c)
  show ?case
  proof (cases i)
    case 0
    then show ?thesis by simp
  next
    case (Suc j)
    with Cons.prems have "j < length c" by simp
    from Cons.IH [OF this] Suc show ?thesis by (auto split: if_splits)
  qed
qed

lemma count_cells_Cfg:
  assumes "set c \<subseteq> {0, 1, 2 :: int}"
  shows "count_list c 0 + count_list c 1 + count_list c 2 = length c"
  using assms by (induction c) auto

lemma isValid_state_of_Cfg:
  assumes "c \<in> Cfg"
  shows "isValid (state_of c) \<longleftrightarrow> \<bar>int (count_list c 1) - int (count_list c 2)\<bar> \<le> 1"
proof -
  from assms have "count_list c 0 + count_list c 1 + count_list c 2 = 9"
    using count_cells_Cfg [of c] by (simp add: Cfg_def)
  then show ?thesis
    by (auto simp: state_of_fields(10) checkValid_def Let_def)
qed

text \<open>The configuration after a legal move from \<open>c\<close> at cell \<open>k\<close>.\<close>

lemma makeMove_Cfg:
  assumes "c \<in> Cfg" and "makeMove (state_of c) position = Inr st'"
  shows "\<exists>k v. k < 9 \<and> position = int k \<and> c ! k = 0 \<and>
      v = (if count_list c 1 > count_list c 2 then 2 else 1) \<and>
      st' = state_of (c [k := v]) \<and> c [k := v] \<in> Cfg \<and>
      isValid (state_of c) \<and> \<not> isTerminal (state_of c)"
proof -
  from assms(1) have len: "length c = 9" and dom: "set c \<subseteq> {0, 1, 2}"
    by (simp_all add: Cfg_def)
  let ?v = "if count_list c 1 > count_list c 2 then 2 else 1 :: int"
  from assms(2) have ok: "isValid (state_of c)" "\<not> isTerminal (state_of c)"
    and pos: "0 \<le> position" "position < 9" "c ! nat position = 0"
    and st': "st' = state_of (c [nat position := ?v])"
    unfolding makeMove_state_of [OF len] by (auto split: if_splits)
  have "set (c [nat position := ?v]) \<subseteq> insert ?v (set c)" by (rule set_update_subset_insert)
  with dom have "c [nat position := ?v] \<in> Cfg" by (auto simp: Cfg_def len)
  with ok pos st' show ?thesis
    by (intro exI [of _ "nat position"] exI [of _ ?v]) auto
qed

lemma makeMove_counts:
  assumes "c \<in> Cfg" and "k < 9" and "c ! k = 0"
    and "v = (if count_list c 1 > count_list c 2 then 2 else 1)"
  shows "count_list (c [k := v]) 1 + count_list (c [k := v]) 2 = Suc (count_list c 1 + count_list c 2)"
    and "count_list (c [k := v]) 1 = count_list c 1 + (if count_list c 1 > count_list c 2 then 0 else 1)"
    and "count_list (c [k := v]) 2 = count_list c 2 + (if count_list c 1 > count_list c 2 then 1 else 0)"
proof -
  from assms(1,2) have k: "k < length c" by (simp add: Cfg_def)
  from count_list_update [OF k, of v 1] count_list_update [OF k, of v 2] assms(3,4)
  show "count_list (c [k := v]) 1 + count_list (c [k := v]) 2 = Suc (count_list c 1 + count_list c 2)"
    and "count_list (c [k := v]) 1 = count_list c 1 + (if count_list c 1 > count_list c 2 then 0 else 1)"
    and "count_list (c [k := v]) 2 = count_list c 2 + (if count_list c 1 > count_list c 2 then 1 else 0)"
    by (auto split: if_splits)
qed

lemma set_getPossibleMoves:
  "set (getPossibleMoves st) =
     (if \<not> isValid st \<or> isTerminal st then {}
      else {int k | k. k < length (config st) \<and> config st ! k = 0})"
proof -
  have z: "zip c [0 ..< length c] = map (\<lambda>k. (c ! k, k)) [0 ..< length c]" for c :: config
    by (rule nth_equalityI) simp_all
  have "set (filter (\<lambda>idx. idx \<noteq> - 1)
             (map (\<lambda>(val, idx). if val = 0 then int idx else - 1)
                (zip c [0 ..< length c]))) = {int k | k. k < length c \<and> c ! k = 0}" for c :: config
    unfolding z by (auto simp: image_iff)
  then show ?thesis by (simp add: getPossibleMoves_def)
qed

lemma makeMove_possible:
  assumes "c \<in> Cfg" and "makeMove (state_of c) position = Inr st'"
  shows "position \<in> set (getPossibleMoves (state_of c))"
proof -
  from makeMove_Cfg [OF assms] obtain k where
    "k < 9" "position = int k" "c ! k = 0" "isValid (state_of c)" "\<not> isTerminal (state_of c)"
    by blast
  moreover from assms(1) have "length c = 9" by (simp add: Cfg_def)
  ultimately show ?thesis
    by (auto simp: set_getPossibleMoves state_of_fields(1))
qed

lemma possible_makeMove:
  assumes "c \<in> Cfg" and "position \<in> set (getPossibleMoves (state_of c))"
  shows "\<exists>st'. makeMove (state_of c) position = Inr st'"
proof -
  from assms(1) have len: "length c = 9" by (simp add: Cfg_def)
  from assms(2) show ?thesis
    unfolding makeMove_state_of [OF len]
    by (auto simp: set_getPossibleMoves state_of_fields(1) len split: if_splits)
qed

lemma isTerminal_no_move: "isTerminal st \<Longrightarrow> makeMove st position = Inl MoveStateError"
  by (simp add: makeMove_def)

section \<open>Keys of well-formed states\<close>

lemma getCanonicalForm_in_symmetries:
  "\<exists>s \<in> set (getAllSymmetries c). getCanonicalForm c = join s"
proof -
  have "Min (join ` set (getAllSymmetries c)) \<in> join ` set (getAllSymmetries c)"
    by (rule Min_in) (simp_all add: getAllSymmetries_def)
  then show ?thesis unfolding getCanonicalForm_Min by blast
qed

lemma state_key_state_of:
  "state_key uc (state_of c) = (if uc then getCanonicalForm c else join c)"
  by (simp add: state_key_def state_of_fields)

lemma state_key_representative:
  assumes "c \<in> Cfg"
  shows "\<exists>s \<in> Cfg. state_key uc (state_of c) = join s \<and>
    count_list s 1 = count_list c 1 \<and> count_list s 2 = count_list c 2"
proof (cases uc)
  case True
  from assms have l: "length c = 9" by (simp add: Cfg_def)
  from getCanonicalForm_in_symmetries [of c] obtain s
    where s: "s \<in> set (getAllSymmetries c)" "getCanonicalForm c = join s" by blast
  from transform_Cfg [OF assms s(1)] symmetry_preserves(1) [OF l s(1)] s(2) True
  show ?thesis by (auto simp: state_key_state_of)
next
  case False
  with assms show ?thesis by (auto simp: state_key_state_of)
qed

lemma state_key_in_universe:
  assumes "c \<in> Cfg"
  shows "state_key uc (state_of c) \<in> join ` Cfg"
  using state_key_representative [OF assms, of uc] by auto

lemma state_key_turnCount:
  assumes "c \<in> Cfg" and "c' \<in> Cfg"
    and "state_key uc (state_of c) = state_key uc (state_of c')"
  shows "turnCount (state_of c) = turnCount (state_of c')"
proof -
  from state_key_representative [OF assms(1), of uc] obtain s where
    s: "s \<in> Cfg" "state_key uc (state_of c) = join s"
      "count_list s 1 = count_list c 1" "count_list s 2 = count_list c 2" by blast
  from state_key_representative [OF assms(2), of uc] obtain s' where
    s': "s' \<in> Cfg" "state_key uc (state_of c') = join s'"
      "count_list s' 1 = count_list c' 1" "count_list s' 2 = count_list c' 2" by blast
  from s(1,2) s'(1,2) assms(3) have "s = s'"
    by (auto simp: Cfg_def intro: join_inj)
  with s(3,4) s'(3,4) show ?thesis by (simp add: state_of_fields(7))
qed

lemma state_of_inj:
  "state_of c = state_of c' \<Longrightarrow> c = c'"
  by (metis state_of_fields(1))

lemma id_key_inj:
  assumes "c \<in> Cfg" and "c' \<in> Cfg" and "id_field (state_of c) = id_field (state_of c')"
  shows "c = c'"
  using assms by (auto simp: state_of_fields(2) Cfg_def intro: join_inj)

section \<open>One move of the traversal\<close>

lemma buildTree_moves_Cons:
  assumes "makeMove cur move = Inr newState" and "g key = Some currentNode"
  shows "buildTree_moves uc cur key (move # ms) g queue =
    buildTree_moves uc cur key ms
      ((if g (state_key uc newState) = None
        then g (state_key uc newState \<mapsto>
               \<lparr> state = newState, parent = Some key, children = [],
                 depth = depth currentNode + 1 \<rparr>)
        else g)
       (key \<mapsto> currentNode \<lparr> children := children currentNode @ [state_key uc newState] \<rparr>))
      (if g (state_key uc newState) = None then queue @ [newState] else queue)"
  using assms by (simp add: Let_def)

lemma finite_universe: "finite (join ` Cfg)"
  by (rule finite_imageI) (rule card_Cfg(1))

lemma move_turnCount:
  assumes "c \<in> Cfg" and "makeMove (state_of c) move = Inr newState"
  shows "\<exists>c' \<in> Cfg. newState = state_of c' \<and>
    turnCount newState = Suc (turnCount (state_of c))"
proof -
  from makeMove_Cfg [OF assms] obtain k v where
    kv: "k < 9" "c ! k = 0" "v = (if count_list c 1 > count_list c 2 then 2 else 1)"
      "newState = state_of (c [k := v])" "c [k := v] \<in> Cfg"
    by blast
  from makeMove_counts(1) [OF assms(1) kv(1,2,3)] kv(4,5) show ?thesis
    by (auto simp: state_of_fields(7))
qed

lemma nodes_okD:
  assumes "nodes_ok uc g" and "g k = Some n"
  shows "(\<exists>c \<in> Cfg. state n = state_of c) \<and> state_key uc (state n) = k \<and> reachable (state n)"
  using assms by (simp add: nodes_ok_def)

lemma step_inv:
  fixes g :: "string \<rightharpoonup> node" and uc :: bool and cur newState :: TicTacToeState
    and currentNode :: node and queue :: "TicTacToeState list"
  defines "key \<equiv> state_key uc cur" and "stateId \<equiv> state_key uc newState"
  defines "nn \<equiv> \<lparr> state = newState, parent = Some key, children = [],
                   depth = depth currentNode + 1 \<rparr>"
  defines "cn \<equiv> currentNode \<lparr> children := children currentNode @ [stateId] \<rparr>"
  defines "g2 \<equiv> (if g stateId = None then g (stateId \<mapsto> nn) else g) (key \<mapsto> cn)"
  defines "queue1 \<equiv> (if g stateId = None then queue @ [newState] else queue)"
  assumes inv: "graph_inv uc g queue ({cur} \<times> insert move M)"
    and cur: "cur = state_of c" "c \<in> Cfg"
    and mv: "makeMove cur move = Inr newState"
    and node: "g key = Some currentNode" "state currentNode = cur"
  shows "graph_inv uc g2 queue1 ({cur} \<times> M)"
    and "traversal_measure g2 queue1 \<le> traversal_measure g queue"
    and "g2 key = Some cn" and "state cn = cur"
proof -
  from inv have nodes: "nodes_ok uc g" and queue: "queue_ok uc g queue"
    and closed: "closed_ok uc g queue ({cur} \<times> insert move M)"
    and terminal: "terminal_ok g" and edges: "edges_ok g"
    and root: "g (join [0, 0, 0, 0, 0, 0, 0, 0, 0]) \<noteq> None"
    by (simp_all add: graph_inv_def)
  from move_turnCount [OF cur(2) mv [unfolded cur(1)]] obtain c' where
    c': "c' \<in> Cfg" "newState = state_of c'"
    and tc: "turnCount newState = Suc (turnCount cur)"
    by (auto simp: cur(1))
  from mv have nt: "\<not> isTerminal cur" by (auto simp: makeMove_def split: if_splits)
  have cur_reach: "reachable cur"
    using nodes node by (auto simp: nodes_ok_def)
  have new_reach: "reachable newState"
    by (rule reachable_move [OF cur_reach mv])
  have neq: "stateId \<noteq> key"
  proof
    assume "stateId = key"
    then have "turnCount newState = turnCount cur"
      unfolding stateId_def key_def cur(1) c'(2)
      by (rule state_key_turnCount [OF c'(1) cur(2)])
    with tc show False by simp
  qed
  have st_cn: "state cn = cur" by (simp add: cn_def node(2))
  have ch_cn: "children cn = children currentNode @ [stateId]" by (simp add: cn_def)
  have g2_key: "g2 key = Some cn" by (simp add: g2_def)
  have g2_new: "g2 stateId = Some nn" if "g stateId = None"
    using that neq by (simp add: g2_def)
  have g2_other: "g2 k = g k" if "k \<noteq> key" "k \<noteq> stateId \<or> g stateId \<noteq> None" for k
    using that by (auto simp: g2_def)
  have g2_cases: "n = cn \<and> k = key \<or> n = nn \<and> k = stateId \<and> g stateId = None \<or>
      g k = Some n \<and> k \<noteq> key" if "g2 k = Some n" for k n
    using that by (auto simp: g2_def split: if_splits)
  have g2_state: "\<exists>n2. g2 k = Some n2 \<and> state n2 = state n" if "g k = Some n" for k n
  proof (cases "k = key")
    case True
    with that node have "n = currentNode" by simp
    with True g2_key st_cn node(2) show ?thesis by simp
  next
    case False
    with that have "g2 k = Some n" by (auto simp: g2_def)
    then show ?thesis by simp
  qed
  have g2_dom: "g2 k \<noteq> None" if "g k \<noteq> None" for k
    using that g2_state [of k] by auto
  have queue_sub: "set queue \<subseteq> set queue1" by (auto simp: queue1_def)
  have new_present: "g2 stateId \<noteq> None"
    using g2_new g2_dom [of stateId] by (cases "g stateId") auto
  have nodes2: "nodes_ok uc g2"
    unfolding nodes_ok_def
  proof (intro allI impI)
    fix k n assume "g2 k = Some n"
    from g2_cases [OF this] show "(\<exists>c \<in> Cfg. state n = state_of c) \<and>
        state_key uc (state n) = k \<and> reachable (state n)"
    proof (elim disjE conjE)
      assume "n = cn" "k = key"
      with st_cn cur cur_reach show ?thesis by (auto simp: key_def)
    next
      assume "n = nn" "k = stateId"
      with c' new_reach show ?thesis by (auto simp: nn_def stateId_def)
    next
      assume "g k = Some n"
      with nodes show ?thesis by (simp add: nodes_ok_def)
    qed
  qed
  have queue2: "queue_ok uc g2 queue1"
    unfolding queue_ok_def
  proof
    fix q assume "q \<in> set queue1"
    then consider "q \<in> set queue" | "q = newState" "g stateId = None"
      by (auto simp: queue1_def split: if_splits)
    then show "\<exists>n. g2 (state_key uc q) = Some n \<and> state n = q"
    proof cases
      case 1
      with queue obtain n where "g (state_key uc q) = Some n" "state n = q"
        by (auto simp: queue_ok_def)
      with g2_state [of "state_key uc q" n] show ?thesis by auto
    next
      case 2
      with g2_new show ?thesis by (auto simp: stateId_def nn_def)
    qed
  qed
  have closed2: "closed_ok uc g2 queue1 ({cur} \<times> M)"
    unfolding closed_ok_def
  proof (intro allI impI)
    fix k n position st'
    assume k: "g2 k = Some n" and m: "makeMove (state n) position = Inr st'"
    from g2_cases [OF k] show "state n \<in> set queue1 \<or> (state n, position) \<in> {cur} \<times> M \<or>
        (g2 (state_key uc st') \<noteq> None \<and> state_key uc st' \<in> set (children n))"
    proof (elim disjE conjE)
      assume n: "n = cn" "k = key"
      from m have m': "makeMove (state currentNode) position = Inr st'"
        by (simp add: n st_cn node(2))
      from closed node(1) m' have "state currentNode \<in> set queue \<or>
          (state currentNode, position) \<in> {cur} \<times> insert move M \<or>
          (g (state_key uc st') \<noteq> None \<and> state_key uc st' \<in> set (children currentNode))"
        unfolding closed_ok_def by blast
      then show ?thesis
      proof (elim disjE)
        assume "state currentNode \<in> set queue"
        with queue_sub show ?thesis by (auto simp: n st_cn node(2))
      next
        assume "(state currentNode, position) \<in> {cur} \<times> insert move M"
        then have "position = move \<or> position \<in> M" by auto
        then show ?thesis
        proof
          assume "position = move"
          with m mv have "st' = newState" by (simp add: n st_cn)
          with new_present show ?thesis by (simp add: n ch_cn stateId_def)
        next
          assume "position \<in> M"
          then show ?thesis by (simp add: n st_cn)
        qed
      next
        assume "g (state_key uc st') \<noteq> None \<and> state_key uc st' \<in> set (children currentNode)"
        with g2_dom show ?thesis by (simp add: n ch_cn)
      qed
    next
      assume "n = nn" "k = stateId" "g stateId = None"
      then show ?thesis by (simp add: nn_def queue1_def)
    next
      assume old: "g k = Some n" "k \<noteq> key"
      from closed old(1) m have "state n \<in> set queue \<or>
          (state n, position) \<in> {cur} \<times> insert move M \<or>
          (g (state_key uc st') \<noteq> None \<and> state_key uc st' \<in> set (children n))"
        unfolding closed_ok_def by blast
      then show ?thesis
      proof (elim disjE)
        assume "state n \<in> set queue"
        with queue_sub show ?thesis by auto
      next
        assume "(state n, position) \<in> {cur} \<times> insert move M"
        then have "state n = cur" by blast
        moreover from nodes old(1) have "state_key uc (state n) = k" by (simp add: nodes_ok_def)
        ultimately have "k = key" by (simp add: key_def)
        with old(2) show ?thesis by simp
      next
        assume "g (state_key uc st') \<noteq> None \<and> state_key uc st' \<in> set (children n)"
        with g2_dom show ?thesis by simp
      qed
    qed
  qed
  have terminal2: "terminal_ok g2"
    unfolding terminal_ok_def
  proof (intro allI impI)
    fix k n assume k: "g2 k = Some n" and t: "isTerminal (state n)"
    from g2_cases [OF k] show "children n = []"
    proof (elim disjE conjE)
      assume "n = cn" "k = key"
      with t nt st_cn show ?thesis by simp
    next
      assume "n = nn" "k = stateId"
      then show ?thesis by (simp add: nn_def)
    next
      assume "g k = Some n"
      with terminal t show ?thesis by (simp add: terminal_ok_def)
    qed
  qed
  have old_edge: "\<exists>n'. g2 ch = Some n' \<and> turnCount (state n') = Suc (turnCount (state n))"
    if "g k = Some n" "ch \<in> set (children n)" for k n ch
  proof -
    from edges that obtain n' where "g ch = Some n'"
      "turnCount (state n') = Suc (turnCount (state n))"
      unfolding edges_ok_def by blast
    with g2_state [of ch n'] show ?thesis by auto
  qed
  have new_edge: "\<exists>n'. g2 stateId = Some n' \<and> turnCount (state n') = Suc (turnCount cur)"
  proof (cases "g stateId")
    case None
    from g2_new [OF None] tc show ?thesis by (simp add: nn_def)
  next
    case (Some n'')
    with neq have g2s: "g2 stateId = Some n''" by (simp add: g2_def)
    from nodes_okD [OF nodes Some] obtain c'' where c'': "c'' \<in> Cfg" "state n'' = state_of c''"
      and k'': "state_key uc (state n'') = stateId"
      by blast
    have "turnCount (state_of c'') = turnCount (state_of c')"
      by (rule state_key_turnCount [OF c''(1) c'(1)])
        (use k'' in \<open>simp add: c''(2) stateId_def c'(2)\<close>)
    with g2s tc show ?thesis by (simp add: c''(2) c'(2))
  qed
  have edges2: "edges_ok g2"
    unfolding edges_ok_def
  proof (intro allI impI)
    fix k n ch assume k: "g2 k = Some n" and ch: "ch \<in> set (children n)"
    from g2_cases [OF k] show "\<exists>n'. g2 ch = Some n' \<and>
        turnCount (state n') = Suc (turnCount (state n))"
    proof (elim disjE conjE)
      assume n: "n = cn" "k = key"
      from ch have "ch \<in> set (children currentNode) \<or> ch = stateId"
        by (auto simp: n ch_cn)
      then show ?thesis
      proof
        assume "ch \<in> set (children currentNode)"
        from old_edge [OF node(1) this] show ?thesis by (simp add: n st_cn node(2))
      next
        assume "ch = stateId"
        with new_edge show ?thesis by (simp add: n st_cn)
      qed
    next
      assume "n = nn" "k = stateId"
      with ch show ?thesis by (simp add: nn_def)
    next
      assume "g k = Some n"
      from old_edge [OF this ch] show ?thesis .
    qed
  qed
  from nodes2 queue2 closed2 terminal2 edges2 g2_dom [OF root]
  show "graph_inv uc g2 queue1 ({cur} \<times> M)" by (simp add: graph_inv_def)
  show "traversal_measure g2 queue1 \<le> traversal_measure g queue"
  proof (cases "g stateId")
    case None
    have kd: "key \<in> dom g" using node(1) by (rule domI)
    have "dom g2 = insert key (insert stateId (dom g))"
      by (simp add: g2_def None)
    also have "\<dots> = insert stateId (insert key (dom g))" by (rule insert_commute)
    also have "insert key (dom g) = dom g" by (rule insert_absorb [OF kd])
    finally have d: "dom g2 = insert stateId (dom g)" .
    have u: "stateId \<in> join ` Cfg"
      unfolding stateId_def c'(2) by (rule state_key_in_universe [OF c'(1)])
    have nd: "stateId \<notin> dom g" using None by auto
    have e: "join ` Cfg - dom g2 = (join ` Cfg - dom g) - {stateId}"
      unfolding d by (rule Diff_insert)
    have m: "stateId \<in> join ` Cfg - dom g" using u nd by simp
    have f: "finite (join ` Cfg - dom g)" using finite_universe by simp
    have "Suc (card (join ` Cfg - dom g2)) = card (join ` Cfg - dom g)"
      unfolding e by (rule card_Suc_Diff1 [OF f m])
    then show ?thesis using None by (simp add: traversal_measure_def queue1_def)
  next
    case (Some n'')
    have kd: "key \<in> dom g" using node(1) by (rule domI)
    have "dom g2 = insert key (dom g)" by (simp add: g2_def Some)
    also have "\<dots> = dom g" by (rule insert_absorb [OF kd])
    finally have "dom g2 = dom g" .
    then show ?thesis using Some by (simp add: traversal_measure_def queue1_def)
  qed
  show "g2 key = Some cn" by (rule g2_key)
  show "state cn = cur" by (rule st_cn)
qed

section \<open>The traversal as a whole\<close>

lemma moves_inv:
  assumes "graph_inv uc g queue ({cur} \<times> set ms)" and "cur = state_of c" and "c \<in> Cfg"
    and "set ms \<subseteq> set (getPossibleMoves cur)"
    and "g (state_key uc cur) = Some currentNode" and "state currentNode = cur"
  shows "\<exists>g' queue'. buildTree_moves uc cur (state_key uc cur) ms g queue = Inr (g', queue') \<and>
    graph_inv uc g' queue' {} \<and> traversal_measure g' queue' \<le> traversal_measure g queue"
  using assms
proof (induction ms arbitrary: g queue currentNode)
  case Nil
  then show ?case by simp
next
  case (Cons move ms)
  from Cons.prems(4) have mv_in: "move \<in> set (getPossibleMoves cur)"
    and rest: "set ms \<subseteq> set (getPossibleMoves cur)" by simp_all
  from possible_makeMove [OF Cons.prems(3)] mv_in obtain newState
    where mv: "makeMove cur move = Inr newState" by (auto simp: Cons.prems(2))
  let ?key = "state_key uc cur"
  let ?stateId = "state_key uc newState"
  let ?cn = "currentNode \<lparr> children := children currentNode @ [?stateId] \<rparr>"
  let ?g2 = "(if g ?stateId = None
        then g (?stateId \<mapsto> \<lparr> state = newState, parent = Some ?key, children = [],
                 depth = depth currentNode + 1 \<rparr>)
        else g) (?key \<mapsto> ?cn)"
  let ?queue1 = "if g ?stateId = None then queue @ [newState] else queue"
  from Cons.prems(1) have inv: "graph_inv uc g queue ({cur} \<times> insert move (set ms))"
    by simp
  note step = step_inv [OF inv Cons.prems(2,3) mv Cons.prems(5,6)]
  from Cons.IH [OF step(1) Cons.prems(2,3) rest step(3,4)] obtain g' queue' where
    r: "buildTree_moves uc cur ?key ms ?g2 ?queue1 = Inr (g', queue')"
      "graph_inv uc g' queue' {}"
      "traversal_measure g' queue' \<le> traversal_measure ?g2 ?queue1"
    by blast
  have "buildTree_moves uc cur ?key (move # ms) g queue = Inr (g', queue')"
    unfolding buildTree_moves_Cons [of cur move newState g ?key currentNode, OF mv Cons.prems(5)]
    by (rule r(1))
  moreover from r(3) step(2) have "traversal_measure g' queue' \<le> traversal_measure g queue"
    by (rule order_trans)
  ultimately show ?case using r(2) by blast
qed

lemma graph_inv_dequeue_terminal:
  assumes "graph_inv uc g (cur # rest) {}" and "isTerminal cur"
  shows "graph_inv uc g rest {}"
proof -
  have "closed_ok uc g rest {}"
    unfolding closed_ok_def
  proof (intro allI impI)
    fix k n position st'
    assume k: "g k = Some n" and m: "makeMove (state n) position = Inr st'"
    from assms(1) k m have "state n \<in> set (cur # rest) \<or>
        (g (state_key uc st') \<noteq> None \<and> state_key uc st' \<in> set (children n))"
      unfolding graph_inv_def closed_ok_def by blast
    moreover have "state n \<noteq> cur"
      using m isTerminal_no_move [OF assms(2), of position] by auto
    ultimately show "state n \<in> set rest \<or> (state n, position) \<in> {} \<or>
        (g (state_key uc st') \<noteq> None \<and> state_key uc st' \<in> set (children n))"
      by auto
  qed
  with assms(1) show ?thesis by (simp add: graph_inv_def queue_ok_def)
qed

lemma graph_inv_dequeue:
  assumes "graph_inv uc g (cur # rest) {}" and "cur = state_of c" and "c \<in> Cfg"
  shows "graph_inv uc g rest ({cur} \<times> set (getPossibleMoves cur))"
proof -
  have "closed_ok uc g rest ({cur} \<times> set (getPossibleMoves cur))"
    unfolding closed_ok_def
  proof (intro allI impI)
    fix k n position st'
    assume k: "g k = Some n" and m: "makeMove (state n) position = Inr st'"
    from assms(1) k m have "state n \<in> set (cur # rest) \<or>
        (g (state_key uc st') \<noteq> None \<and> state_key uc st' \<in> set (children n))"
      unfolding graph_inv_def closed_ok_def by blast
    moreover have "position \<in> set (getPossibleMoves cur)" if "state n = cur"
      using makeMove_possible [OF assms(3), of position st'] m that by (simp add: assms(2))
    ultimately show "state n \<in> set rest \<or>
        (state n, position) \<in> {cur} \<times> set (getPossibleMoves cur) \<or>
        (g (state_key uc st') \<noteq> None \<and> state_key uc st' \<in> set (children n))"
      by auto
  qed
  with assms(1) show ?thesis by (simp add: graph_inv_def queue_ok_def)
qed

lemma loop_inv:
  assumes "graph_inv uc g queue {}"
  shows "\<exists>g'. buildTree_loop uc g queue = Some (Inr g') \<and> graph_inv uc g' [] {}"
  using assms
proof (induction "traversal_measure g queue" arbitrary: g queue rule: less_induct)
  case less
  show ?case
  proof (cases queue)
    case Nil
    with less.prems show ?thesis by (subst buildTree_loop.simps) simp
  next
    case (Cons cur rest)
    from less.prems obtain n where n: "g (state_key uc cur) = Some n" "state n = cur"
      by (auto simp: graph_inv_def queue_ok_def Cons)
    from less.prems have nodes: "nodes_ok uc g" by (simp add: graph_inv_def)
    from nodes_okD [OF nodes n(1)] n(2) obtain c where c: "cur = state_of c" "c \<in> Cfg"
      by auto
    have m0: "traversal_measure g rest < traversal_measure g queue"
      by (simp add: traversal_measure_def Cons)
    show ?thesis
    proof (cases "isTerminal cur")
      case True
      from less.prems have "graph_inv uc g rest {}"
        unfolding Cons by (rule graph_inv_dequeue_terminal) (rule True)
      from less.hyps [OF m0 this] obtain g' where
        "buildTree_loop uc g rest = Some (Inr g')" "graph_inv uc g' [] {}" by blast
      then show ?thesis
        by (subst buildTree_loop.simps) (simp add: Cons True)
    next
      case False
      from less.prems have "graph_inv uc g rest ({cur} \<times> set (getPossibleMoves cur))"
        unfolding Cons by (rule graph_inv_dequeue) (rule c)+
      from moves_inv [OF this c subset_refl n] obtain g1 queue1 where
        r: "buildTree_moves uc cur (state_key uc cur) (getPossibleMoves cur) g rest
              = Inr (g1, queue1)"
          "graph_inv uc g1 queue1 {}"
          "traversal_measure g1 queue1 \<le> traversal_measure g rest"
        by blast
      from r(3) m0 have "traversal_measure g1 queue1 < traversal_measure g queue" by simp
      from less.hyps [OF this r(2)] obtain g' where
        "buildTree_loop uc g1 queue1 = Some (Inr g')" "graph_inv uc g' [] {}" by blast
      then show ?thesis
        by (subst buildTree_loop.simps) (simp add: Cons False r(1) Let_def)
    qed
  qed
qed

section \<open>The graph built from the empty board\<close>

lemma zeros_Cfg: "[0, 0, 0, 0, 0, 0, 0, 0, 0] \<in> Cfg"
  by (simp add: Cfg_def)

lemma join_zeros: "join [0, 0, 0, 0, 0, 0, 0, 0, 0] = ''000000000''"
  by (simp add: join_def String_of_int_cell)

lemma empty_state_eq: "empty_state = Inr (state_of [0, 0, 0, 0, 0, 0, 0, 0, 0])"
  by (simp add: empty_state_def new_TicTacToeState_state_of)

lemma state_key_zeros:
  "state_key uc (state_of [0, 0, 0, 0, 0, 0, 0, 0, 0]) = join [0, 0, 0, 0, 0, 0, 0, 0, 0]"
proof -
  have "canon9 [0, 0, 0, 0, 0, 0, 0, 0, 0]" by simp
  then have "getCanonicalForm [0, 0, 0, 0, 0, 0, 0, 0, 0] = join [0, 0, 0, 0, 0, 0, 0, 0, 0]"
    by (simp only: canon9_correct [OF zeros_Cfg])
  then show ?thesis by (simp add: state_key_state_of)
qed

lemma graph_inv_initial:
  "graph_inv uc
     (Map.empty (join [0, 0, 0, 0, 0, 0, 0, 0, 0] \<mapsto>
        \<lparr> state = state_of [0, 0, 0, 0, 0, 0, 0, 0, 0], parent = None, children = [],
          depth = 0 \<rparr>))
     [state_of [0, 0, 0, 0, 0, 0, 0, 0, 0]] {}"
proof -
  have "reachable (state_of [0, 0, 0, 0, 0, 0, 0, 0, 0])"
    by (rule reachable_empty) (rule empty_state_eq)
  then show ?thesis
    using zeros_Cfg
    by (auto simp: graph_inv_def nodes_ok_def queue_ok_def closed_ok_def terminal_ok_def
          edges_ok_def state_key_zeros split: if_splits)
qed

lemma buildTree_result:
  "\<exists>g. buildTree uc new_StateGraph =
        Some (Inr \<lparr> graph = g, root = Some (join [0, 0, 0, 0, 0, 0, 0, 0, 0]) \<rparr>) \<and>
      graph_inv uc g [] {}"
proof -
  from loop_inv [OF graph_inv_initial [of uc]] obtain g where
    "buildTree_loop uc
       (Map.empty (join [0, 0, 0, 0, 0, 0, 0, 0, 0] \<mapsto>
          \<lparr> state = state_of [0, 0, 0, 0, 0, 0, 0, 0, 0], parent = None, children = [],
            depth = 0 \<rparr>))
       [state_of [0, 0, 0, 0, 0, 0, 0, 0, 0]] = Some (Inr g)"
    "graph_inv uc g [] {}"
    by blast
  then show ?thesis
    by (simp add: buildTree_def empty_state_eq new_StateGraph_def state_of_fields(2))
qed

lemma reachable_Cfg:
  assumes "reachable st"
  shows "\<exists>c \<in> Cfg. st = state_of c \<and>
    (count_list c 1 = count_list c 2 \<or> count_list c 1 = Suc (count_list c 2))"
  using assms
proof (induction rule: reachable.induct)
  case (reachable_empty st)
  then have "st = state_of [0, 0, 0, 0, 0, 0, 0, 0, 0]" by (simp add: empty_state_eq)
  with zeros_Cfg show ?case by (intro bexI [of _ "[0, 0, 0, 0, 0, 0, 0, 0, 0]"]) simp_all
next
  case (reachable_move st position st')
  then obtain c where c: "c \<in> Cfg" "st = state_of c"
    and alt: "count_list c 1 = count_list c 2 \<or> count_list c 1 = Suc (count_list c 2)"
    by blast
  from makeMove_Cfg [OF c(1) reachable_move.hyps(2) [unfolded c(2)]] obtain k v where
    kv: "k < 9" "c ! k = 0" "v = (if count_list c 1 > count_list c 2 then 2 else 1)"
      "st' = state_of (c [k := v])" "c [k := v] \<in> Cfg"
    by blast
  from makeMove_counts(2,3) [OF c(1) kv(1,2,3)] alt
  have "count_list (c [k := v]) 1 = count_list (c [k := v]) 2 \<or>
      count_list (c [k := v]) 1 = Suc (count_list (c [k := v]) 2)"
    by (auto split: if_splits)
  with kv(4,5) show ?case by blast
qed

lemma reachable_valid:
  assumes "reachable st"
  shows "isValid st \<and> (count1 st = count2 st \<or> count1 st = Suc (count2 st))"
proof -
  from reachable_Cfg [OF assms] obtain c where c: "c \<in> Cfg" "st = state_of c"
    and alt: "count_list c 1 = count_list c 2 \<or> count_list c 1 = Suc (count_list c 2)"
    by blast
  from alt have "\<bar>int (count_list c 1) - int (count_list c 2)\<bar> \<le> 1" by auto
  with alt show ?thesis
    by (simp add: c(2) isValid_state_of_Cfg [OF c(1)] state_of_fields(5,6))
qed

lemma graph_inv_reachable_node:
  assumes "graph_inv False g [] {}" and "reachable st"
  shows "\<exists>n. g (id_field st) = Some n \<and> state n = st"
  using assms(2)
proof (induction rule: reachable.induct)
  case (reachable_empty st)
  then have st: "st = state_of [0, 0, 0, 0, 0, 0, 0, 0, 0]" by (simp add: empty_state_eq)
  from assms(1) obtain n where n: "g (join [0, 0, 0, 0, 0, 0, 0, 0, 0]) = Some n"
    by (auto simp: graph_inv_def)
  from assms(1) have nodes: "nodes_ok False g" by (simp add: graph_inv_def)
  from nodes_okD [OF nodes n] obtain c where c: "c \<in> Cfg" "state n = state_of c"
    and k: "state_key False (state n) = join [0, 0, 0, 0, 0, 0, 0, 0, 0]" by blast
  from k have "id_field (state_of c) = id_field (state_of [0, 0, 0, 0, 0, 0, 0, 0, 0])"
    by (simp add: c(2) state_key_def state_of_fields(2))
  from id_key_inj [OF c(1) zeros_Cfg this] c(2) n show ?case
    by (simp add: st state_of_fields(2))
next
  case (reachable_move st position st')
  then obtain n where n: "g (id_field st) = Some n" "state n = st" by blast
  from assms(1) have closed: "closed_ok False g [] {}" and nodes: "nodes_ok False g"
    by (simp_all add: graph_inv_def)
  from closed n reachable_move.hyps(2) have "g (state_key False st') \<noteq> None"
    unfolding closed_ok_def by fastforce
  then obtain n' where n': "g (id_field st') = Some n'" by (auto simp: state_key_def)
  from nodes_okD [OF nodes n'] obtain c' where c': "c' \<in> Cfg" "state n' = state_of c'"
    and k': "state_key False (state n') = id_field st'" by blast
  from reachable_Cfg [OF reachable.reachable_move [OF reachable_move.hyps(1,2)]]
  obtain d where d: "d \<in> Cfg" "st' = state_of d" by blast
  from k' have "id_field (state_of c') = id_field (state_of d)"
    by (simp add: c'(2) d(2) state_key_def)
  from id_key_inj [OF c'(1) d(1) this] have "state n' = st'" by (simp add: c'(2) d(2))
  with n' show ?case by blast
qed

lemma turnCount_le_9:
  assumes "c \<in> Cfg"
  shows "turnCount (state_of c) \<le> 9"
proof -
  from assms have "count_list c 0 + count_list c 1 + count_list c 2 = 9"
    using count_cells_Cfg [of c] by (simp add: Cfg_def)
  then show ?thesis by (simp add: state_of_fields(7))
qed

text \<open>
  C7. \<open>buildTree(false)\<close> on a fresh graph returns, and the keys of the graph are exactly
  the ids of the states reachable from the empty board by legal \<open>makeMove\<close> steps. Each
  reachable state is lax-valid, has as many A cells as B cells or one more (A moved
  first and the players alternated), and is the state stored under its id. Every node
  whose state is terminal has an empty children list.
\<close>

theorem buildTree_keys_reachable:
  "\<exists>sg. buildTree False new_StateGraph = Some (Inr sg) \<and>
     dom (graph sg) = id_field ` {st. reachable st} \<and>
     (\<forall>st. reachable st \<longrightarrow>
        isValid st \<and> (count1 st = count2 st \<or> count1 st = Suc (count2 st)) \<and>
        (\<exists>n. graph sg (id_field st) = Some n \<and> state n = st)) \<and>
     (\<forall>k n. graph sg k = Some n \<longrightarrow> isTerminal (state n) \<longrightarrow> children n = [])"
proof -
  from buildTree_result [of False] obtain g where
    b: "buildTree False new_StateGraph =
        Some (Inr \<lparr> graph = g, root = Some (join [0, 0, 0, 0, 0, 0, 0, 0, 0]) \<rparr>)"
    and inv: "graph_inv False g [] {}" by blast
  from inv have nodes: "nodes_ok False g" and terminal: "terminal_ok g"
    by (simp_all add: graph_inv_def)
  have keys: "dom g = id_field ` {st. reachable st}"
  proof (rule set_eqI, rule iffI)
    fix k assume "k \<in> dom g"
    from domD [OF this] obtain n where n: "g k = Some n" ..
    from nodes_okD [OF nodes n] have "id_field (state n) = k" "reachable (state n)"
      by (simp_all add: state_key_def)
    then show "k \<in> id_field ` {st. reachable st}" by (intro image_eqI [of _ _ "state n"]) simp_all
  next
    fix k assume "k \<in> id_field ` {st. reachable st}"
    then obtain st where st: "reachable st" "k = id_field st" by (elim imageE) simp
    from graph_inv_reachable_node [OF inv st(1)] show "k \<in> dom g"
      unfolding st(2) by (elim exE conjE) (rule domI)
  qed
  have reach: "isValid st \<and> (count1 st = count2 st \<or> count1 st = Suc (count2 st)) \<and>
      (\<exists>n. g (id_field st) = Some n \<and> state n = st)" if "reachable st" for st
    using reachable_valid [OF that] graph_inv_reachable_node [OF inv that] by simp
  have leaf: "children n = []" if "g k = Some n" "isTerminal (state n)" for k n
    using terminal that unfolding terminal_ok_def by (elim allE impE) assumption+
  let ?sg = "\<lparr> graph = g, root = Some (join [0, 0, 0, 0, 0, 0, 0, 0, 0]) \<rparr>"
  have "buildTree False new_StateGraph = Some (Inr ?sg) \<and>
     dom (graph ?sg) = id_field ` {st. reachable st} \<and>
     (\<forall>st. reachable st \<longrightarrow>
        isValid st \<and> (count1 st = count2 st \<or> count1 st = Suc (count2 st)) \<and>
        (\<exists>n. graph ?sg (id_field st) = Some n \<and> state n = st)) \<and>
     (\<forall>k n. graph ?sg k = Some n \<longrightarrow> isTerminal (state n) \<longrightarrow> children n = [])"
    using b keys reach leaf by simp
  then show ?thesis by (rule exI)
qed

text \<open>
  C8. \<open>buildTree\<close> returns for both key modes. In the resulting graph the empty board
  is a node, every node's turn count is at most 9, every legal move from a node's state
  is an edge to the key of the state it produces, whose turn count is one more, and
  along every edge of the graph the child's turn count is strictly greater than the
  parent's.
\<close>

theorem buildTree_terminates:
  "\<exists>sg. buildTree useCanonical new_StateGraph = Some (Inr sg) \<and>
     graph sg ''000000000'' \<noteq> None \<and>
     (\<forall>k n. graph sg k = Some n \<longrightarrow>
        turnCount (state n) \<le> 9 \<and>
        (\<forall>position st'. makeMove (state n) position = Inr st' \<longrightarrow>
           state_key useCanonical st' \<in> set (children n) \<and>
           turnCount st' = Suc (turnCount (state n))) \<and>
        (\<forall>ch \<in> set (children n). \<exists>n'. graph sg ch = Some n' \<and>
           turnCount (state n) < turnCount (state n')))"
proof -
  from buildTree_result [of useCanonical] obtain g where
    b: "buildTree useCanonical new_StateGraph =
        Some (Inr \<lparr> graph = g, root = Some (join [0, 0, 0, 0, 0, 0, 0, 0, 0]) \<rparr>)"
    and inv: "graph_inv useCanonical g [] {}" by blast
  from inv have nodes: "nodes_ok useCanonical g" and closed: "closed_ok useCanonical g [] {}"
    and edges: "edges_ok g" and root: "g ''000000000'' \<noteq> None"
    by (simp_all add: graph_inv_def join_zeros)
  have node: "turnCount (state n) \<le> 9 \<and>
        (\<forall>position st'. makeMove (state n) position = Inr st' \<longrightarrow>
           state_key useCanonical st' \<in> set (children n) \<and>
           turnCount st' = Suc (turnCount (state n))) \<and>
        (\<forall>ch \<in> set (children n). \<exists>n'. g ch = Some n' \<and>
           turnCount (state n) < turnCount (state n'))" if n: "g k = Some n" for k n
  proof -
    from nodes_okD [OF nodes n] obtain c where c: "c \<in> Cfg" "state n = state_of c" by blast
    have t: "turnCount (state n) \<le> 9" unfolding c(2) by (rule turnCount_le_9 [OF c(1)])
    have m: "state_key useCanonical st' \<in> set (children n) \<and>
        turnCount st' = Suc (turnCount (state n))"
      if mv: "makeMove (state n) position = Inr st'" for position st'
    proof -
      from closed n mv have "state_key useCanonical st' \<in> set (children n)"
        unfolding closed_ok_def by fastforce
      moreover from move_turnCount [OF c(1) mv [unfolded c(2)]]
      have "turnCount st' = Suc (turnCount (state n))" by (auto simp: c(2))
      ultimately show ?thesis by simp
    qed
    have e: "\<exists>n'. g ch = Some n' \<and> turnCount (state n) < turnCount (state n')"
      if "ch \<in> set (children n)" for ch
    proof -
      from edges n that obtain n' where "g ch = Some n'"
        "turnCount (state n') = Suc (turnCount (state n))"
        unfolding edges_ok_def by blast
      then show ?thesis by simp
    qed
    from t m e show ?thesis by blast
  qed
  let ?sg = "\<lparr> graph = g, root = Some (join [0, 0, 0, 0, 0, 0, 0, 0, 0]) \<rparr>"
  have "buildTree useCanonical new_StateGraph = Some (Inr ?sg) \<and>
     graph ?sg ''000000000'' \<noteq> None \<and>
     (\<forall>k n. graph ?sg k = Some n \<longrightarrow>
        turnCount (state n) \<le> 9 \<and>
        (\<forall>position st'. makeMove (state n) position = Inr st' \<longrightarrow>
           state_key useCanonical st' \<in> set (children n) \<and>
           turnCount st' = Suc (turnCount (state n))) \<and>
        (\<forall>ch \<in> set (children n). \<exists>n'. graph ?sg ch = Some n' \<and>
           turnCount (state n) < turnCount (state n')))"
    using b root node by simp
  then show ?thesis by (rule exI)
qed

lemma makeMove_explicit:
  "makeMove (state_of [0, 0, 0, 0, 0, 0, 0, 0, 0]) 0 = Inr (state_of [1, 0, 0, 0, 0, 0, 0, 0, 0])"
  "makeMove (state_of [1, 0, 0, 0, 0, 0, 0, 0, 0]) 3 = Inr (state_of [1, 0, 0, 2, 0, 0, 0, 0, 0])"
  "makeMove (state_of [1, 0, 0, 2, 0, 0, 0, 0, 0]) 1 = Inr (state_of [1, 1, 0, 2, 0, 0, 0, 0, 0])"
  "makeMove (state_of [1, 1, 0, 2, 0, 0, 0, 0, 0]) 4 = Inr (state_of [1, 1, 0, 2, 2, 0, 0, 0, 0])"
  "makeMove (state_of [1, 1, 0, 2, 2, 0, 0, 0, 0]) 2 = Inr (state_of [1, 1, 1, 2, 2, 0, 0, 0, 0])"
  "makeMove (state_of [0, 0, 0, 0, 0, 0, 0, 0, 0]) 4 = Inr (state_of [0, 0, 0, 0, 1, 0, 0, 0, 0])"
  by (simp_all add: makeMove_state_of state_of_fields(10,12) checkValid_def
        calculateWinners_def winners_step_def winningLines_table_def)

lemma reachable_explicit:
  "reachable (state_of [0, 0, 0, 0, 0, 0, 0, 0, 0])"
  "reachable (state_of [1, 1, 1, 2, 2, 0, 0, 0, 0])"
  "reachable (state_of [0, 0, 0, 0, 1, 0, 0, 0, 0])"
proof -
  show r0: "reachable (state_of [0, 0, 0, 0, 0, 0, 0, 0, 0])"
    by (rule reachable_empty) (rule empty_state_eq)
  note r1 = reachable_move [OF r0 makeMove_explicit(1)]
  note r2 = reachable_move [OF r1 makeMove_explicit(2)]
  note r3 = reachable_move [OF r2 makeMove_explicit(3)]
  note r4 = reachable_move [OF r3 makeMove_explicit(4)]
  show "reachable (state_of [1, 1, 1, 2, 2, 0, 0, 0, 0])"
    by (rule reachable_move [OF r4 makeMove_explicit(5)])
  show "reachable (state_of [0, 0, 0, 0, 1, 0, 0, 0, 0])"
    by (rule reachable_move [OF r0 makeMove_explicit(6)])
qed

lemma explicit_fields:
  "isTerminal (state_of [1, 1, 1, 2, 2, 0, 0, 0, 0])"
  "id_field (state_of [1, 1, 1, 2, 2, 0, 0, 0, 0]) = ''111220000''"
  "id_field (state_of [0, 0, 0, 0, 0, 0, 0, 0, 0]) = ''000000000''"
  "id_field (state_of [0, 0, 0, 0, 1, 0, 0, 0, 0]) = ''000010000''"
  "turnCount (state_of [0, 0, 0, 0, 0, 0, 0, 0, 0]) = 0"
  by (simp_all add: state_of_fields(2,7,10,12) checkValid_def calculateWinners_def
        winners_step_def winningLines_table_def join_def String_of_int_cell)

theorem buildTree_keys_reachable_witness:
  "\<exists>sg n. buildTree False new_StateGraph = Some (Inr sg) \<and>
     reachable (state_of [1, 1, 1, 2, 2, 0, 0, 0, 0]) \<and>
     ''111220000'' \<in> dom (graph sg) \<and>
     isValid (state_of [1, 1, 1, 2, 2, 0, 0, 0, 0]) \<and>
     graph sg ''111220000'' = Some n \<and>
     state n = state_of [1, 1, 1, 2, 2, 0, 0, 0, 0] \<and>
     isTerminal (state n) \<and> children n = []"
proof -
  let ?st = "state_of [1, 1, 1, 2, 2, 0, 0, 0, 0]"
  from buildTree_keys_reachable obtain sg where
    b: "buildTree False new_StateGraph = Some (Inr sg)"
    and r: "\<forall>st. reachable st \<longrightarrow>
        isValid st \<and> (count1 st = count2 st \<or> count1 st = Suc (count2 st)) \<and>
        (\<exists>n. graph sg (id_field st) = Some n \<and> state n = st)"
    and t: "\<forall>k n. graph sg k = Some n \<longrightarrow> isTerminal (state n) \<longrightarrow> children n = []"
    by blast
  from r reachable_explicit(2) have v: "isValid ?st"
    and "\<exists>n. graph sg (id_field ?st) = Some n \<and> state n = ?st"
    by simp_all
  then obtain n where n: "graph sg ''111220000'' = Some n" "state n = ?st"
    unfolding explicit_fields(2) by (elim exE conjE)
  from n(2) have leaf: "isTerminal (state n)" by (simp add: explicit_fields(1))
  from t n(1) leaf have c: "children n = []" by (elim allE impE) assumption+
  from n(1) have d: "''111220000'' \<in> dom (graph sg)" by (rule domI)
  from b reachable_explicit(2) d v n leaf c show ?thesis by (intro exI conjI)
qed

theorem buildTree_terminates_witness:
  "\<exists>sg n n'. buildTree False new_StateGraph = Some (Inr sg) \<and>
     graph sg ''000000000'' = Some n \<and>
     turnCount (state n) \<le> 9 \<and>
     makeMove (state n) 4 = Inr (state_of [0, 0, 0, 0, 1, 0, 0, 0, 0]) \<and>
     ''000010000'' \<in> set (children n) \<and>
     graph sg ''000010000'' = Some n' \<and>
     turnCount (state n) < turnCount (state n')"
proof -
  let ?e = "state_of [0, 0, 0, 0, 0, 0, 0, 0, 0]"
  let ?m = "state_of [0, 0, 0, 0, 1, 0, 0, 0, 0]"
  from buildTree_terminates [of False] obtain sg where
    b: "buildTree False new_StateGraph = Some (Inr sg)"
    and a: "\<forall>k n. graph sg k = Some n \<longrightarrow>
        turnCount (state n) \<le> 9 \<and>
        (\<forall>position st'. makeMove (state n) position = Inr st' \<longrightarrow>
           state_key False st' \<in> set (children n) \<and>
           turnCount st' = Suc (turnCount (state n))) \<and>
        (\<forall>ch \<in> set (children n). \<exists>n'. graph sg ch = Some n' \<and>
           turnCount (state n) < turnCount (state n'))"
    by blast
  from buildTree_result [of False] obtain g where
    b': "buildTree False new_StateGraph =
        Some (Inr \<lparr> graph = g, root = Some (join [0, 0, 0, 0, 0, 0, 0, 0, 0]) \<rparr>)"
    and inv: "graph_inv False g [] {}" by blast
  from b b' have "sg = \<lparr> graph = g, root = Some (join [0, 0, 0, 0, 0, 0, 0, 0, 0]) \<rparr>"
    by simp
  then have sg: "graph sg = g" by simp
  from graph_inv_reachable_node [OF inv reachable_explicit(1)] obtain n where
    n: "graph sg ''000000000'' = Some n" "state n = ?e"
    unfolding explicit_fields(3) sg by (elim exE conjE)
  have mv: "makeMove (state n) 4 = Inr ?m" by (simp only: n(2) makeMove_explicit(6))
  from a n(1) have t: "turnCount (state n) \<le> 9"
    and m: "\<forall>position st'. makeMove (state n) position = Inr st' \<longrightarrow>
           state_key False st' \<in> set (children n) \<and>
           turnCount st' = Suc (turnCount (state n))"
    and e: "\<forall>ch \<in> set (children n). \<exists>n'. graph sg ch = Some n' \<and>
           turnCount (state n) < turnCount (state n')"
    by simp_all
  from m mv have "state_key False ?m \<in> set (children n)" by (elim allE impE conjE) assumption+
  then have ch: "''000010000'' \<in> set (children n)"
    by (simp only: state_key_def if_False explicit_fields(4))
  from bspec [OF e ch] obtain n' where n': "graph sg ''000010000'' = Some n'"
    "turnCount (state n) < turnCount (state n')" by (elim exE conjE)
  from b n(1) t mv ch n' show ?thesis by (intro exI conjI)
qed

section \<open>Optimal play\<close>










section \<open>Strictly valid states and their moves\<close>











section \<open>The cache\<close>






section \<open>The search computes the outcome of optimal play\<close>








end
